theory Spec2Isabelle
  imports Main "HOL-Library.Sublist"
begin

section \<open>The GraphQL syntax tree, as \<^verbatim>\<open>src/queries/directives.ts\<close> reads it\<close>

text \<open>
  Only the fields the directive code touches are kept. A \<^verbatim>\<open>Name\<close> node is its
  \<^verbatim>\<open>value\<close> string; a node the code tests for presence (\<^verbatim>\<open>directive.name\<close>,
  \<^verbatim>\<open>ifArgument.name\<close>, \<^verbatim>\<open>ifValue\<close>, \<^verbatim>\<open>withSelSet.selectionSet\<close>) is an
  \<open>option\<close>, \<open>None\<close> standing for \<^verbatim>\<open>undefined\<close>.
\<close>

text \<open>
  Runtime values bound to variables (\<^verbatim>\<open>{ [name: string]: any }\<close>). Numbers are integers
  here; \<open>JSObject\<close> stands for any object, array or function.
\<close>

datatype jsvalue =
    JSUndefined
  | JSNull
  | JSBoolean bool
  | JSNumber int
  | JSString string
  | JSObject

text \<open>JavaScript's truthiness, which \<^verbatim>\<open>!evaledValue\<close> and \<^verbatim>\<open>if (evaledValue)\<close> apply.\<close>

fun truthy :: "jsvalue \<Rightarrow> bool" where
  "truthy JSUndefined = False"
| "truthy JSNull = False"
| "truthy (JSBoolean b) = b"
| "truthy (JSNumber n) = (n \<noteq> 0)"
| "truthy (JSString s) = (s \<noteq> [])"
| "truthy JSObject = True"

text \<open>
  \<^verbatim>\<open>variables\<close> and \<^verbatim>\<open>directiveResolvers\<close> are plain objects, as the \<^verbatim>\<open>{}\<close> of lines
  33 and 36 is, and the source reads them with \<^verbatim>\<open>object[name]\<close> (lines 73 and 135). Such
  a read gives the object's own property of that name when it has one, and otherwise the
  member of that name of \<^verbatim>\<open>Object.prototype\<close>, which every plain object inherits;
  \<^verbatim>\<open>undefined\<close> is what is left for the other names. A map holds the own properties of
  an object; \<open>objectPrototype\<close> lists the members of \<^verbatim>\<open>Object.prototype\<close> as ECMAScript
  defines them: eleven functions and the accessor \<^verbatim>\<open>__proto__\<close>, whose value is the
  prototype object itself.
\<close>

datatype member =
    Constructor
  | ToString
  | ToLocaleString
  | ValueOf
  | HasOwnProperty
  | IsPrototypeOf
  | PropertyIsEnumerable
  | Proto
  | DefineGetter
  | DefineSetter
  | LookupGetter
  | LookupSetter

definition objectPrototype :: "string \<rightharpoonup> member" where
  "objectPrototype =
     map_of
       [(''constructor'', Constructor),
        (''toString'', ToString),
        (''toLocaleString'', ToLocaleString),
        (''valueOf'', ValueOf),
        (''hasOwnProperty'', HasOwnProperty),
        (''isPrototypeOf'', IsPrototypeOf),
        (''propertyIsEnumerable'', PropertyIsEnumerable),
        (''__proto__'', Proto),
        (''__defineGetter__'', DefineGetter),
        (''__defineSetter__'', DefineSetter),
        (''__lookupGetter__'', LookupGetter),
        (''__lookupSetter__'', LookupSetter)]"

type_synonym variables = "string \<rightharpoonup> jsvalue"

text \<open>
  \<^verbatim>\<open>variables[name]\<close> (line 135). An own property can be bound to \<^verbatim>\<open>undefined\<close>; an
  inherited member is a function or, for \<^verbatim>\<open>__proto__\<close>, an object.
\<close>

definition getVariable :: "variables \<Rightarrow> string \<Rightarrow> jsvalue" where
  "getVariable variables x =
     (case variables x of
        Some v \<Rightarrow> v
      | None \<Rightarrow> (case objectPrototype x of Some m \<Rightarrow> JSObject | None \<Rightarrow> JSUndefined))"

text \<open>The kinds of \<^verbatim>\<open>Value\<close> node; list and object values carry no content here.\<close>

datatype valueNode =
    BooleanValue bool
  | Variable string
  | IntValue string
  | FloatValue string
  | StringValue string
  | EnumValue string
  | ListValue
  | ObjectValue

datatype argument = Argument (arg_name: "string option") (arg_value: "valueNode option")

datatype directive = Directive (dir_name: "string option") (dir_arguments: "argument list")

text \<open>
  The three kinds of selection. A \<^verbatim>\<open>selections\<close> array can also hold a value that is
  not a node: the rewriter itself puts a string there (\<open>callMember\<close> below, and line
  101), so a rewritten document is a document only with \<open>PrimitiveString\<close> among the
  selections. A string has no \<^verbatim>\<open>directives\<close>.
\<close>

datatype selection =
    Field string "directive list" "selectionSet option"
  | InlineFragment "directive list" selectionSet
  | FragmentSpread string "directive list"
  | PrimitiveString string
and selectionSet = SelectionSet "selection list"

fun directives :: "selection \<Rightarrow> directive list" where
  "directives (Field n ds ss) = ds"
| "directives (InlineFragment ds ss) = ds"
| "directives (FragmentSpread n ds) = ds"
| "directives (PrimitiveString str) = []"

fun selections :: "selectionSet \<Rightarrow> selection list" where
  "selections (SelectionSet sels) = sels"

section \<open>Errors\<close>

text \<open>
  One constructor per \<^verbatim>\<open>throw\<close> of the source, carrying the directive name the message
  interpolates, and \<open>TypeError\<close> for what the JavaScript runtime raises when the code
  calls what is not a function, or reads a property of \<^verbatim>\<open>undefined\<close>, or when a
  built-in function is called without the object it works on. The last two are the errors of the
  parts modelled from the spec: a document without its query definition, and the spec's
  PollingConfigurationError.
\<close>

datatype error =
    IncorrectNumberOfArguments
  | InvalidArgument string
  | InvalidArgumentValue string
  | InvalidVariable string
  | TypeError
  | MustContainQueryDefinition
  | PollingConfigurationError

fun isError :: "error + 'a \<Rightarrow> bool" where
  "isError (Inl e) = True"
| "isError (Inr v) = False"

section \<open>The skip and include resolvers\<close>

text \<open>
  \<^verbatim>\<open>skipIncludeDirectiveResolver\<close>, lines 112 to 154. The result \<open>Inr None\<close> is the
  \<^verbatim>\<open>undefined\<close> the source returns for a removed selection. When \<^verbatim>\<open>ifValue\<close> is
  missing, line 132 reads \<^verbatim>\<open>ifValue.kind\<close> of \<^verbatim>\<open>undefined\<close>: a \<open>TypeError\<close>.
  The resolver only passes the selection through, so its type is a parameter \<open>'sel\<close>:
  a selection as a value in the sections that follow, a reference to a selection object
  in section ``The rewriter on a store of objects''.
\<close>

definition skipIncludeDirectiveResolver ::
  "string \<Rightarrow> 'sel \<Rightarrow> variables \<Rightarrow> directive \<Rightarrow> error + 'sel option" where
  "skipIncludeDirectiveResolver directiveName selection variables directive =
    (let directiveArguments = dir_arguments directive in
     if length directiveArguments \<noteq> 1 then Inl IncorrectNumberOfArguments
     else
       let ifArgument = hd directiveArguments in
       if (case arg_name ifArgument of None \<Rightarrow> True | Some n \<Rightarrow> n \<noteq> ''if'')
       then Inl (InvalidArgument directiveName)
       else
         let evaled =
           (case arg_value ifArgument of
              None \<Rightarrow> Inl TypeError
            | Some (BooleanValue b) \<Rightarrow> Inr (JSBoolean b)
            | Some (Variable x) \<Rightarrow>
                (let evaledValue = getVariable variables x in
                 if evaledValue = JSUndefined then Inl (InvalidVariable directiveName)
                 else Inr evaledValue)
            | Some other \<Rightarrow> Inl (InvalidArgumentValue directiveName))
         in
         case evaled of
           Inl e \<Rightarrow> Inl e
         | Inr evaledValue \<Rightarrow>
             let evaledValue' =
               (if directiveName = ''skip'' then JSBoolean (\<not> truthy evaledValue)
                else evaledValue)
             in if truthy evaledValue' then Inr (Some selection) else Inr None)"

definition skipDirectiveResolver ::
  "'sel \<Rightarrow> variables \<Rightarrow> directive \<Rightarrow> error + 'sel option" where
  "skipDirectiveResolver selection variables directive =
     skipIncludeDirectiveResolver ''skip'' selection variables directive"

definition includeDirectiveResolver ::
  "'sel \<Rightarrow> variables \<Rightarrow> directive \<Rightarrow> error + 'sel option" where
  "includeDirectiveResolver selection variables directive =
     skipIncludeDirectiveResolver ''include'' selection variables directive"

section \<open>The directive resolver registry\<close>

text \<open>
  A \<^verbatim>\<open>DirectiveResolver\<close> is a function from a selection, the variables and a directive
  to a selection or \<^verbatim>\<open>undefined\<close>. The file defines two of them, and the registry
  \<^verbatim>\<open>{ [name: string]: DirectiveResolver }\<close> holds them as its own properties, under any
  names. Both return either the very selection object they were given or
  \<^verbatim>\<open>undefined\<close>.
\<close>

datatype resolver = SkipDirectiveResolver | IncludeDirectiveResolver

fun callResolver ::
  "resolver \<Rightarrow> 'sel \<Rightarrow> variables \<Rightarrow> directive \<Rightarrow> error + 'sel option" where
  "callResolver SkipDirectiveResolver = skipDirectiveResolver"
| "callResolver IncludeDirectiveResolver = includeDirectiveResolver"

type_synonym registry = "string \<rightharpoonup> resolver"

text \<open>
  \<^verbatim>\<open>directiveResolvers[directive.name.value]\<close> (line 73): a resolver the registry holds,
  or a member it inherits, or \<^verbatim>\<open>undefined\<close> (\<open>None\<close>).
\<close>

datatype callee = Resolver resolver | Member member

definition getResolver :: "registry \<Rightarrow> string \<Rightarrow> callee option" where
  "getResolver directiveResolvers n =
     (case directiveResolvers n of
        Some directiveResolver \<Rightarrow> Some (Resolver directiveResolver)
      | None \<Rightarrow> map_option Member (objectPrototype n))"

text \<open>
  What the call of line 74 returns and \<^verbatim>\<open>newSelection\<close> then holds: \<^verbatim>\<open>undefined\<close>, a
  selection, or a string.
\<close>

datatype 'sel returned = Undefined | Selection 'sel | ReturnedString string

fun ofOption :: "'sel option \<Rightarrow> 'sel returned" where
  "ofOption None = Undefined"
| "ofOption (Some selection) = Selection selection"

text \<open>
  Line 74 calls what line 73 found through a plain identifier, so an inherited member
  runs with \<^verbatim>\<open>this\<close> undefined, on the arguments \<^verbatim>\<open>(currSelection, variables,
  directive)\<close>. \<^verbatim>\<open>constructor\<close> is \<^verbatim>\<open>Object\<close>, which returns its first argument when
  that is an object; \<^verbatim>\<open>toString\<close> returns the string \<^verbatim>\<open>[object Undefined]\<close>;
  \<^verbatim>\<open>__proto__\<close> is an object, not a function; the other members need an object as
  \<^verbatim>\<open>this\<close>. Those, like a call of \<^verbatim>\<open>undefined\<close>, raise a \<open>TypeError\<close>.
\<close>

fun callMember :: "member \<Rightarrow> 'sel \<Rightarrow> error + 'sel returned" where
  "callMember Constructor currSelection = Inr (Selection currSelection)"
| "callMember ToString currSelection = Inr (ReturnedString ''[object Undefined]'')"
| "callMember other currSelection = Inl TypeError"

fun callDirectiveResolver ::
  "callee option \<Rightarrow> 'sel \<Rightarrow> variables \<Rightarrow> directive \<Rightarrow> error + 'sel returned" where
  "callDirectiveResolver None currSelection variables directive = Inl TypeError"
| "callDirectiveResolver (Some (Member m)) currSelection variables directive =
     callMember m currSelection"
| "callDirectiveResolver (Some (Resolver directiveResolver)) currSelection variables directive =
     map_sum id ofOption (callResolver directiveResolver currSelection variables directive)"

section \<open>The selection set rewriter\<close>

text \<open>
  The three locals of the \<^verbatim>\<open>map\<close> callback (lines 67 to 69). \<open>toBeRemoved\<close> starts as
  \<^verbatim>\<open>null\<close>, here \<open>None\<close>.
\<close>

record 'sel locals =
  newSelection :: "'sel returned"
  currSelection :: 'sel
  toBeRemoved :: "bool option"

text \<open>
  The body of \<^verbatim>\<open>selection.directives.forEach\<close> (lines 72 to 89). Line 74 calls whatever
  the lookup of line 73 returned. The test of line 84, \<^verbatim>\<open>if (newSelection)\<close>, is under
  the names \<^verbatim>\<open>skip\<close> and \<^verbatim>\<open>include\<close>, which \<^verbatim>\<open>Object.prototype\<close> does not have:
  what was called there is a resolver of the registry, and \<^verbatim>\<open>newSelection\<close> a selection
  or \<^verbatim>\<open>undefined\<close>.
\<close>

definition forEachBody ::
  "'sel \<Rightarrow> variables \<Rightarrow> registry \<Rightarrow> 'sel locals \<Rightarrow> directive \<Rightarrow> error + 'sel locals" where
  "forEachBody selection variables directiveResolvers st directive =
    (case dir_name directive of
       None \<Rightarrow> Inr st
     | Some n \<Rightarrow>
        if n = [] then Inr st
        else
          (let directiveResolver = getResolver directiveResolvers n in
           case callDirectiveResolver directiveResolver (currSelection st) variables directive of
             Inl e \<Rightarrow> Inl e
           | Inr r \<Rightarrow>
              let st1 = st\<lparr>newSelection := r\<rparr> in
              if n = ''skip'' \<or> n = ''include'' then
                let st2 =
                      (if r = Undefined \<and> toBeRemoved st1 = None
                       then st1\<lparr>toBeRemoved := Some True\<rparr>
                       else if r = Undefined then st1\<lparr>currSelection := selection\<rparr>
                       else st1);
                    st3 =
                      (case r of
                         Selection s \<Rightarrow> st2\<lparr>toBeRemoved := Some False, currSelection := s\<rparr>
                       | other \<Rightarrow> st2)
                in Inr st3
              else Inr st1))"

text \<open>\<^verbatim>\<open>forEach\<close> over the directives, in source order; an exception ends the loop.\<close>

fun forEachDirective ::
  "'sel \<Rightarrow> variables \<Rightarrow> registry \<Rightarrow> 'sel locals \<Rightarrow> directive list \<Rightarrow> error + 'sel locals" where
  "forEachDirective selection variables directiveResolvers st [] = Inr st"
| "forEachDirective selection variables directiveResolvers st (d # ds) =
     (case forEachBody selection variables directiveResolvers st d of
        Inl e \<Rightarrow> Inl e
      | Inr st' \<Rightarrow> forEachDirective selection variables directiveResolvers st' ds)"

text \<open>
  Lines 67 to 90: the locals as initialised, then the loop over \<^verbatim>\<open>selection.directives\<close>.
\<close>

definition runDirectives ::
  "'sel \<Rightarrow> directive list \<Rightarrow> variables \<Rightarrow> registry \<Rightarrow> error + 'sel locals" where
  "runDirectives selection directiveList variables directiveResolvers =
     forEachDirective selection variables directiveResolvers
       \<lparr>newSelection = Selection selection, currSelection = selection, toBeRemoved = None\<rparr>
       directiveList"

text \<open>
  The same on a selection value. When the selection is a string, line 71 reads
  \<^verbatim>\<open>forEach\<close> of \<^verbatim>\<open>undefined\<close>: a \<open>TypeError\<close>.
\<close>

definition applyDirectivesToSelection ::
  "selection \<Rightarrow> variables \<Rightarrow> registry \<Rightarrow> error + selection locals" where
  "applyDirectivesToSelection selection variables directiveResolvers =
     (case selection of
        PrimitiveString str \<Rightarrow> Inl TypeError
      | node \<Rightarrow> runDirectives selection (directives selection) variables directiveResolvers)"

text \<open>
  \<^verbatim>\<open>withSelSet.selectionSet = ...\<close> (line 97) writes the rewritten selection set into the
  selection object.
\<close>

fun setSelectionSet :: "selection \<Rightarrow> selectionSet \<Rightarrow> selection" where
  "setSelectionSet (Field n ds old) ss = Field n ds (Some ss)"
| "setSelectionSet (InlineFragment ds old) ss = InlineFragment ds ss"
| "setSelectionSet (FragmentSpread n ds) ss = FragmentSpread n ds"
| "setSelectionSet (PrimitiveString str) ss = PrimitiveString str"

text \<open>
  \<^verbatim>\<open>applyDirectivesToSelectionSet\<close> (lines 58 to 110): \<open>mapCallback\<close> is the function
  passed to \<^verbatim>\<open>selections.map\<close>, \<open>mapSelections\<close> is \<^verbatim>\<open>map\<close> itself, and
  \<open>filterIdentity\<close> is \<^verbatim>\<open>filter(identity)\<close>, which drops the entries that are not
  truthy: \<open>None\<close> stands for them, \<^verbatim>\<open>undefined\<close> and the empty string. On line 97
  the source writes the rewritten selection set into
  \<^verbatim>\<open>selection\<close> and on line 101 returns \<^verbatim>\<open>newSelection\<close>. When that is a selection
  it is the object \<^verbatim>\<open>selection\<close> itself, as whatever the lookup can find returns the
  object it was given (lemma \<open>newSelection_is_selection\<close> below), and the value
  returned is \<open>newSelection\<close> with its selection set replaced; when it is a string, the
  string is returned and takes the place of the selection. On line 103 nothing was
  written: \<open>currSelection\<close> is returned as it is.
\<close>

definition stringElement :: "string \<Rightarrow> selection option" where
  "stringElement str = (if str = [] then None else Some (PrimitiveString str))"

fun filterIdentity :: "'a option list \<Rightarrow> 'a list" where
  "filterIdentity [] = []"
| "filterIdentity (None # xs) = filterIdentity xs"
| "filterIdentity (Some x # xs) = x # filterIdentity xs"

fun applyDirectivesToSelectionSet ::
      "selectionSet \<Rightarrow> variables \<Rightarrow> registry \<Rightarrow> error + selectionSet"
  and mapSelections ::
      "selection list \<Rightarrow> variables \<Rightarrow> registry \<Rightarrow> error + selection option list"
  and mapCallback ::
      "selection \<Rightarrow> variables \<Rightarrow> registry \<Rightarrow> error + selection option" where
  "applyDirectivesToSelectionSet (SelectionSet sels) variables directiveResolvers =
     (case mapSelections sels variables directiveResolvers of
        Inl e \<Rightarrow> Inl e
      | Inr mapped \<Rightarrow> Inr (SelectionSet (filterIdentity mapped)))"
| "mapSelections [] variables directiveResolvers = Inr []"
| "mapSelections (selection # rest) variables directiveResolvers =
     (case mapCallback selection variables directiveResolvers of
        Inl e \<Rightarrow> Inl e
      | Inr r \<Rightarrow>
         (case mapSelections rest variables directiveResolvers of
            Inl e \<Rightarrow> Inl e
          | Inr rs \<Rightarrow> Inr (r # rs)))"
| "mapCallback selection variables directiveResolvers =
     (case applyDirectivesToSelection selection variables directiveResolvers of
        Inl e \<Rightarrow> Inl e
      | Inr st \<Rightarrow>
         (case newSelection st of
            Selection newSel \<Rightarrow>
              (case selection of
                 InlineFragment ds ss \<Rightarrow>
                   (case applyDirectivesToSelectionSet ss variables directiveResolvers of
                      Inl e \<Rightarrow> Inl e
                    | Inr ss' \<Rightarrow> Inr (Some (setSelectionSet newSel ss')))
               | Field n ds (Some ss) \<Rightarrow>
                   (case applyDirectivesToSelectionSet ss variables directiveResolvers of
                      Inl e \<Rightarrow> Inl e
                    | Inr ss' \<Rightarrow> Inr (Some (setSelectionSet newSel ss')))
               | other \<Rightarrow> Inr (Some newSel))
          | ReturnedString str \<Rightarrow>
              (case selection of
                 InlineFragment ds ss \<Rightarrow>
                   (case applyDirectivesToSelectionSet ss variables directiveResolvers of
                      Inl e \<Rightarrow> Inl e
                    | Inr ss' \<Rightarrow> Inr (stringElement str))
               | Field n ds (Some ss) \<Rightarrow>
                   (case applyDirectivesToSelectionSet ss variables directiveResolvers of
                      Inl e \<Rightarrow> Inl e
                    | Inr ss' \<Rightarrow> Inr (stringElement str))
               | other \<Rightarrow> Inr (stringElement str))
          | Undefined \<Rightarrow>
              if toBeRemoved st \<noteq> Some True then Inr (Some (currSelection st))
              else Inr None))"

declare mapCallback.simps [simp del]

text \<open>\<^verbatim>\<open>withSelSet.selectionSet\<close>: the nested selection set a selection owns, if any.\<close>

fun selectionSetOf :: "selection \<Rightarrow> selectionSet option" where
  "selectionSetOf (Field n ds sso) = sso"
| "selectionSetOf (InlineFragment ds ss) = Some ss"
| "selectionSetOf (FragmentSpread n ds) = None"
| "selectionSetOf (PrimitiveString str) = None"

section \<open>Documents\<close>

datatype operationType = Query | Mutation | Subscription

datatype definitionNode =
    OperationDefinition operationType "string option" selectionSet
  | FragmentDefinition string selectionSet

datatype document = Document (definitions: "definitionNode list")

fun isFragmentDefinition :: "definitionNode \<Rightarrow> bool" where
  "isFragmentDefinition (FragmentDefinition n ss) = True"
| "isFragmentDefinition (OperationDefinition operation n ss) = False"

fun isQueryDefinition :: "definitionNode \<Rightarrow> bool" where
  "isQueryDefinition (OperationDefinition operation n ss) = (operation = Query)"
| "isQueryDefinition (FragmentDefinition n ss) = False"

fun definitionSelectionSet :: "definitionNode \<Rightarrow> selectionSet" where
  "definitionSelectionSet (OperationDefinition operation n ss) = ss"
| "definitionSelectionSet (FragmentDefinition n ss) = ss"

text \<open>\<^verbatim>\<open>queryDef.selectionSet = ...\<close> and \<^verbatim>\<open>fragmentDef.selectionSet = ...\<close>.\<close>

fun setDefinitionSelectionSet :: "definitionNode \<Rightarrow> selectionSet \<Rightarrow> definitionNode" where
  "setDefinitionSelectionSet (OperationDefinition operation n old) ss =
     OperationDefinition operation n ss"
| "setDefinitionSelectionSet (FragmentDefinition n old) ss = FragmentDefinition n ss"

text \<open>
  Modelled from the spec: \<^verbatim>\<open>getFragmentDefinitions\<close> is imported from
  \<^verbatim>\<open>./getFromAST\<close>, which is not among the sources. The spec has the rewriter work on
  ``every Fragment Definition'' of the document: the fragment definitions, in document
  order.
\<close>

definition getFragmentDefinitions :: "document \<Rightarrow> definitionNode list" where
  "getFragmentDefinitions doc = filter isFragmentDefinition (definitions doc)"

text \<open>
  Modelled from the spec: \<^verbatim>\<open>getQueryDefinition\<close> is imported from \<^verbatim>\<open>./getFromAST\<close>,
  which is not among the sources. The spec has a document hold one operation definition
  and the rewriter work on ``the query Operation Definition'': the document's query
  operation definition, and an error when the document has none, or more than one.
\<close>

definition getQueryDefinition :: "document \<Rightarrow> error + definitionNode" where
  "getQueryDefinition doc =
     (case filter isQueryDefinition (definitions doc) of
        [queryDef] \<Rightarrow> Inr queryDef
      | other \<Rightarrow> Inl MustContainQueryDefinition)"

text \<open>
  \<^verbatim>\<open>cloneDeep\<close> (lodash) returns a structurally equal copy that shares no object with
  its argument. On values that is the identity; section ``The rewriter on a store of
  objects'' models the copy and the writes that follow it.
\<close>

definition cloneDeep :: "'a \<Rightarrow> 'a" where
  "cloneDeep x = x"

text \<open>The callback of \<^verbatim>\<open>fragmentDefs.map\<close> (lines 46 to 52).\<close>

definition rewriteDefinition ::
  "definitionNode \<Rightarrow> variables \<Rightarrow> registry \<Rightarrow> error + definitionNode" where
  "rewriteDefinition def variables directiveResolvers =
     (case applyDirectivesToSelectionSet (definitionSelectionSet def) variables
             directiveResolvers of
        Inl e \<Rightarrow> Inl e
      | Inr selSet \<Rightarrow> Inr (setDefinitionSelectionSet def selSet))"

fun mapDefinitions ::
  "definitionNode list \<Rightarrow> variables \<Rightarrow> registry \<Rightarrow> error + definitionNode list" where
  "mapDefinitions [] variables directiveResolvers = Inr []"
| "mapDefinitions (def # rest) variables directiveResolvers =
     (case rewriteDefinition def variables directiveResolvers of
        Inl e \<Rightarrow> Inl e
      | Inr def' \<Rightarrow>
         (case mapDefinitions rest variables directiveResolvers of
            Inl e \<Rightarrow> Inl e
          | Inr rest' \<Rightarrow> Inr (def' # rest')))"

text \<open>
  \<^verbatim>\<open>applyDirectives\<close> (lines 28 to 56). The two optional parameters are \<open>option\<close>s;
  \<open>orEmpty\<close> replaces a missing one by the empty object (lines 32 to 37).
\<close>

definition orEmpty :: "('k \<rightharpoonup> 'v) option \<Rightarrow> ('k \<rightharpoonup> 'v)" where
  "orEmpty arg = (case arg of None \<Rightarrow> Map.empty | Some m \<Rightarrow> m)"

definition applyDirectives ::
  "document \<Rightarrow> variables option \<Rightarrow> registry option \<Rightarrow> error + document" where
  "applyDirectives doc variablesArg directiveResolversArg =
    (let variables = orEmpty variablesArg;
         directiveResolvers = orEmpty directiveResolversArg;
         newDoc = cloneDeep doc;
         fragmentDefs = getFragmentDefinitions newDoc
     in
     case getQueryDefinition newDoc of
       Inl e \<Rightarrow> Inl e
     | Inr queryDef \<Rightarrow>
        (case applyDirectivesToSelectionSet (definitionSelectionSet queryDef) variables
                directiveResolvers of
           Inl e \<Rightarrow> Inl e
         | Inr newSelSet \<Rightarrow>
            (case mapDefinitions fragmentDefs variables directiveResolvers of
               Inl e \<Rightarrow> Inl e
             | Inr defs \<Rightarrow>
                Inr (Document (setDefinitionSelectionSet queryDef newSelSet # defs)))))"

definition applySkipResolver :: "document \<Rightarrow> variables option \<Rightarrow> error + document" where
  "applySkipResolver doc variables =
     applyDirectives doc variables (Some [''skip'' \<mapsto> SkipDirectiveResolver])"

definition applyIncludeResolver :: "document \<Rightarrow> variables option \<Rightarrow> error + document" where
  "applyIncludeResolver doc variables =
     applyDirectives doc variables (Some [''include'' \<mapsto> IncludeDirectiveResolver])"

section \<open>The rewriter on a store of objects\<close>

text \<open>
  The source works on objects with identity and writes into them:
  \<^verbatim>\<open>selSet.selections = ...\<close> (lines 65 and 108), \<^verbatim>\<open>withSelSet.selectionSet = ...\<close>
  (line 97), \<^verbatim>\<open>queryDef.selectionSet = ...\<close> (line 45), \<^verbatim>\<open>fragmentDef.selectionSet = ...\<close>
  (line 50) and \<^verbatim>\<open>newDoc.definitions = ...\<close> (lines 46 and 53). This section models
  that: a store maps references to objects, \<open>nextRef\<close> is the next reference to
  hand out, and every function takes the store and returns the new one, also when it
  raises. An object holds its fields; a field that refers to another object holds its
  reference. The arrays \<^verbatim>\<open>definitions\<close> and \<^verbatim>\<open>selections\<close> are held by their
  owner: the source never writes into an array another object can see, it assigns the
  fresh arrays that \<^verbatim>\<open>map\<close> and \<^verbatim>\<open>filter\<close> return (\<^verbatim>\<open>unshift\<close> on line 53 writes
  into the array \<^verbatim>\<open>map\<close> made on line 46). An element of a \<^verbatim>\<open>selections\<close> array is
  the reference of a selection object or, a primitive value, a string. Directives are
  never written and stay values.

  Recursion through the store is not structural, so these functions take fuel, one unit
  per level of nesting; \<open>None\<close> is ``out of fuel''. A reference with no object, or
  with an object of the wrong kind, cannot occur in a parsed document; the model stops
  with a \<open>TypeError\<close> there.
\<close>

type_synonym ref = nat

datatype element = Pointer ref | Primitive string

datatype object =
    DocumentObject "ref list"
  | OperationDefinitionObject operationType "string option" ref
  | FragmentDefinitionObject string ref
  | SelectionSetObject "element list"
  | FieldObject string "directive list" "ref option"
  | InlineFragmentObject "directive list" ref
  | FragmentSpreadObject string "directive list"

record store =
  heap :: "ref \<rightharpoonup> object"
  nextRef :: ref

text \<open>The references an array of elements holds, and the array with them replaced.\<close>

fun elementRefs :: "element list \<Rightarrow> ref list" where
  "elementRefs [] = []"
| "elementRefs (Pointer a # rest) = a # elementRefs rest"
| "elementRefs (Primitive str # rest) = elementRefs rest"

fun withElementRefs :: "element list \<Rightarrow> ref list \<Rightarrow> element list" where
  "withElementRefs (Pointer a # rest) (copy # copies) = Pointer copy # withElementRefs rest copies"
| "withElementRefs (Primitive str # rest) copies = Primitive str # withElementRefs rest copies"
| "withElementRefs elements copies = elements"

text \<open>The references an object holds.\<close>

fun refsOf :: "object \<Rightarrow> ref list" where
  "refsOf (DocumentObject defs) = defs"
| "refsOf (OperationDefinitionObject operation n selSet) = [selSet]"
| "refsOf (FragmentDefinitionObject n selSet) = [selSet]"
| "refsOf (SelectionSetObject sels) = elementRefs sels"
| "refsOf (FieldObject n ds None) = []"
| "refsOf (FieldObject n ds (Some selSet)) = [selSet]"
| "refsOf (InlineFragmentObject ds selSet) = [selSet]"
| "refsOf (FragmentSpreadObject n ds) = []"

text \<open>An object with the references it holds replaced, one for one.\<close>

fun withRefs :: "object \<Rightarrow> ref list \<Rightarrow> object" where
  "withRefs (DocumentObject defs) copies = DocumentObject copies"
| "withRefs (OperationDefinitionObject operation n selSet) [copy] =
     OperationDefinitionObject operation n copy"
| "withRefs (FragmentDefinitionObject n selSet) [copy] = FragmentDefinitionObject n copy"
| "withRefs (SelectionSetObject sels) copies = SelectionSetObject (withElementRefs sels copies)"
| "withRefs (FieldObject n ds (Some selSet)) [copy] = FieldObject n ds (Some copy)"
| "withRefs (InlineFragmentObject ds selSet) [copy] = InlineFragmentObject ds copy"
| "withRefs obj copies = obj"

text \<open>A new object, and a write into an object.\<close>

definition alloc :: "object \<Rightarrow> store \<Rightarrow> ref \<times> store" where
  "alloc obj s =
     (nextRef s, s\<lparr>heap := (heap s)(nextRef s \<mapsto> obj), nextRef := Suc (nextRef s)\<rparr>)"

definition writeObject :: "ref \<Rightarrow> object \<Rightarrow> store \<Rightarrow> store" where
  "writeObject a obj s = s\<lparr>heap := (heap s)(a \<mapsto> obj)\<rparr>"

text \<open>
  \<^verbatim>\<open>cloneDeep\<close> (lodash, line 39): a copy of the object and, recursively, of every
  object it refers to. Every object of the copy is new; a string is copied as the value it
  is.
\<close>

fun cloneDeepAt :: "nat \<Rightarrow> store \<Rightarrow> ref \<Rightarrow> ((error + ref) \<times> store) option"
  and cloneDeepAll :: "nat \<Rightarrow> store \<Rightarrow> ref list \<Rightarrow> ((error + ref list) \<times> store) option" where
  "cloneDeepAt 0 s a = None"
| "cloneDeepAt (Suc fuel) s a =
     (case heap s a of
        None \<Rightarrow> Some (Inl TypeError, s)
      | Some obj \<Rightarrow>
          (case cloneDeepAll fuel s (refsOf obj) of
             None \<Rightarrow> None
           | Some (Inl e, s1) \<Rightarrow> Some (Inl e, s1)
           | Some (Inr copies, s1) \<Rightarrow>
               (case alloc (withRefs obj copies) s1 of (copy, s2) \<Rightarrow> Some (Inr copy, s2))))"
| "cloneDeepAll fuel s [] = Some (Inr [], s)"
| "cloneDeepAll fuel s (a # rest) =
     (case cloneDeepAt fuel s a of
        None \<Rightarrow> None
      | Some (Inl e, s1) \<Rightarrow> Some (Inl e, s1)
      | Some (Inr copy, s1) \<Rightarrow>
          (case cloneDeepAll fuel s1 rest of
             None \<Rightarrow> None
           | Some (Inl e, s2) \<Rightarrow> Some (Inl e, s2)
           | Some (Inr copies, s2) \<Rightarrow> Some (Inr (copy # copies), s2)))"

text \<open>\<^verbatim>\<open>selection.directives\<close>, for the three kinds of selection.\<close>

fun objectDirectives :: "object \<Rightarrow> directive list option" where
  "objectDirectives (FieldObject n ds selSet) = Some ds"
| "objectDirectives (InlineFragmentObject ds selSet) = Some ds"
| "objectDirectives (FragmentSpreadObject n ds) = Some ds"
| "objectDirectives other = None"

text \<open>
  The test of lines 95 and 96: the selection set of an \<^verbatim>\<open>InlineFragment\<close>, or of a
  \<^verbatim>\<open>Field\<close> that has one.
\<close>

fun nestedSelectionSet :: "object \<Rightarrow> ref option" where
  "nestedSelectionSet (InlineFragmentObject ds selSet) = Some selSet"
| "nestedSelectionSet (FieldObject n ds selSet) = selSet"
| "nestedSelectionSet other = None"

text \<open>\<^verbatim>\<open>withSelSet.selectionSet = ...\<close> (line 97).\<close>

definition setSelectionSetAt :: "ref \<Rightarrow> ref \<Rightarrow> store \<Rightarrow> store" where
  "setSelectionSetAt selection selSet s =
     (case heap s selection of
        Some (FieldObject n ds old) \<Rightarrow> writeObject selection (FieldObject n ds (Some selSet)) s
      | Some (InlineFragmentObject ds old) \<Rightarrow>
          writeObject selection (InlineFragmentObject ds selSet) s
      | other \<Rightarrow> s)"

text \<open>
  \<^verbatim>\<open>applyDirectivesToSelectionSet\<close> (lines 58 to 110) as the source has it, in place:
  the selection set object is written and returned. The two writes of lines 65 and 108
  are one here, nothing can raise between them. The loop over the directives is
  \<open>runDirectives\<close> itself, on the reference of the selection. An element that is a
  string has no \<^verbatim>\<open>directives\<close> to loop over (line 71): a \<open>TypeError\<close>.
  \<open>elementOf\<close> is the value the callback returns on line 101 as an element of the new
  array; \<open>None\<close> stands for the values \<^verbatim>\<open>filter(identity)\<close> drops.
\<close>

fun elementOf :: "ref returned \<Rightarrow> element option" where
  "elementOf Undefined = None"
| "elementOf (Selection selection) = Some (Pointer selection)"
| "elementOf (ReturnedString str) = (if str = [] then None else Some (Primitive str))"

fun applyDirectivesToSelectionSetAt ::
      "nat \<Rightarrow> store \<Rightarrow> ref \<Rightarrow> variables \<Rightarrow> registry \<Rightarrow> ((error + ref) \<times> store) option"
  and mapSelectionsAt ::
      "nat \<Rightarrow> store \<Rightarrow> element list \<Rightarrow> variables \<Rightarrow> registry
         \<Rightarrow> ((error + element option list) \<times> store) option"
  and mapCallbackAt ::
      "nat \<Rightarrow> store \<Rightarrow> ref \<Rightarrow> variables \<Rightarrow> registry
         \<Rightarrow> ((error + element option) \<times> store) option"
  where
  "applyDirectivesToSelectionSetAt 0 s selSet variables directiveResolvers = None"
| "applyDirectivesToSelectionSetAt (Suc fuel) s selSet variables directiveResolvers =
     (case heap s selSet of
        Some (SelectionSetObject sels) \<Rightarrow>
          (case mapSelectionsAt fuel s sels variables directiveResolvers of
             None \<Rightarrow> None
           | Some (Inl e, s1) \<Rightarrow> Some (Inl e, s1)
           | Some (Inr mapped, s1) \<Rightarrow>
               Some (Inr selSet,
                     writeObject selSet (SelectionSetObject (filterIdentity mapped)) s1))
      | other \<Rightarrow> Some (Inl TypeError, s))"
| "mapSelectionsAt fuel s [] variables directiveResolvers = Some (Inr [], s)"
| "mapSelectionsAt fuel s (Primitive str # rest) variables directiveResolvers =
     Some (Inl TypeError, s)"
| "mapSelectionsAt fuel s (Pointer selection # rest) variables directiveResolvers =
     (case mapCallbackAt fuel s selection variables directiveResolvers of
        None \<Rightarrow> None
      | Some (Inl e, s1) \<Rightarrow> Some (Inl e, s1)
      | Some (Inr r, s1) \<Rightarrow>
          (case mapSelectionsAt fuel s1 rest variables directiveResolvers of
             None \<Rightarrow> None
           | Some (Inl e, s2) \<Rightarrow> Some (Inl e, s2)
           | Some (Inr rs, s2) \<Rightarrow> Some (Inr (r # rs), s2)))"
| "mapCallbackAt fuel s selection variables directiveResolvers =
     (case heap s selection of
        None \<Rightarrow> Some (Inl TypeError, s)
      | Some obj \<Rightarrow>
          (case objectDirectives obj of
             None \<Rightarrow> Some (Inl TypeError, s)
           | Some dirs \<Rightarrow>
               (case runDirectives selection dirs variables directiveResolvers of
                  Inl e \<Rightarrow> Some (Inl e, s)
                | Inr st \<Rightarrow>
                    if newSelection st \<noteq> Undefined then
                      (case nestedSelectionSet obj of
                         Some selSet \<Rightarrow>
                           (case applyDirectivesToSelectionSetAt fuel s selSet variables
                                   directiveResolvers of
                              None \<Rightarrow> None
                            | Some (Inl e, s1) \<Rightarrow> Some (Inl e, s1)
                            | Some (Inr selSet', s1) \<Rightarrow>
                                Some (Inr (elementOf (newSelection st)),
                                      setSelectionSetAt selection selSet' s1))
                       | None \<Rightarrow> Some (Inr (elementOf (newSelection st)), s))
                    else if toBeRemoved st \<noteq> Some True
                    then Some (Inr (Some (Pointer (currSelection st))), s)
                    else Some (Inr None, s))))"

declare mapCallbackAt.simps [simp del]

text \<open>
  Modelled from the spec: \<^verbatim>\<open>getFragmentDefinitions\<close> and \<^verbatim>\<open>getQueryDefinition\<close> of
  \<^verbatim>\<open>./getFromAST\<close> (not among the sources), on the store, as in section ``Documents''.
\<close>

fun isFragmentDefinitionObject :: "object option \<Rightarrow> bool" where
  "isFragmentDefinitionObject (Some (FragmentDefinitionObject n selSet)) = True"
| "isFragmentDefinitionObject other = False"

fun isQueryDefinitionObject :: "object option \<Rightarrow> bool" where
  "isQueryDefinitionObject (Some (OperationDefinitionObject operation n selSet)) =
     (operation = Query)"
| "isQueryDefinitionObject other = False"

definition getFragmentDefinitionsAt :: "store \<Rightarrow> ref \<Rightarrow> error + ref list" where
  "getFragmentDefinitionsAt s doc =
     (case heap s doc of
        Some (DocumentObject defs) \<Rightarrow>
          Inr (filter (\<lambda>d. isFragmentDefinitionObject (heap s d)) defs)
      | other \<Rightarrow> Inl TypeError)"

definition getQueryDefinitionAt :: "store \<Rightarrow> ref \<Rightarrow> error + ref" where
  "getQueryDefinitionAt s doc =
     (case heap s doc of
        Some (DocumentObject defs) \<Rightarrow>
          (case filter (\<lambda>d. isQueryDefinitionObject (heap s d)) defs of
             [queryDef] \<Rightarrow> Inr queryDef
           | other \<Rightarrow> Inl MustContainQueryDefinition)
      | other \<Rightarrow> Inl TypeError)"

text \<open>
  \<^verbatim>\<open>queryDef.selectionSet\<close> and \<^verbatim>\<open>fragmentDef.selectionSet\<close>, read (lines 42 and 47)
  and written (lines 45 and 50); \<open>rewriteDefinitionAt\<close> is lines 47 to 51, and lines
  42 to 45 for the query definition.
\<close>

fun definitionSelectionSetOf :: "object \<Rightarrow> ref option" where
  "definitionSelectionSetOf (OperationDefinitionObject operation n selSet) = Some selSet"
| "definitionSelectionSetOf (FragmentDefinitionObject n selSet) = Some selSet"
| "definitionSelectionSetOf other = None"

definition setDefinitionSelectionSetAt :: "ref \<Rightarrow> ref \<Rightarrow> store \<Rightarrow> store" where
  "setDefinitionSelectionSetAt def selSet s =
     (case heap s def of
        Some (OperationDefinitionObject operation n old) \<Rightarrow>
          writeObject def (OperationDefinitionObject operation n selSet) s
      | Some (FragmentDefinitionObject n old) \<Rightarrow>
          writeObject def (FragmentDefinitionObject n selSet) s
      | other \<Rightarrow> s)"

definition rewriteDefinitionAt ::
  "nat \<Rightarrow> store \<Rightarrow> ref \<Rightarrow> variables \<Rightarrow> registry \<Rightarrow> ((error + ref) \<times> store) option" where
  "rewriteDefinitionAt fuel s def variables directiveResolvers =
     (case Option.bind (heap s def) definitionSelectionSetOf of
        None \<Rightarrow> Some (Inl TypeError, s)
      | Some selSet \<Rightarrow>
          (case applyDirectivesToSelectionSetAt fuel s selSet variables directiveResolvers of
             None \<Rightarrow> None
           | Some (Inl e, s1) \<Rightarrow> Some (Inl e, s1)
           | Some (Inr selSet', s1) \<Rightarrow>
               Some (Inr def, setDefinitionSelectionSetAt def selSet' s1)))"

fun mapDefinitionsAt ::
  "nat \<Rightarrow> store \<Rightarrow> ref list \<Rightarrow> variables \<Rightarrow> registry
     \<Rightarrow> ((error + ref list) \<times> store) option" where
  "mapDefinitionsAt fuel s [] variables directiveResolvers = Some (Inr [], s)"
| "mapDefinitionsAt fuel s (def # rest) variables directiveResolvers =
     (case rewriteDefinitionAt fuel s def variables directiveResolvers of
        None \<Rightarrow> None
      | Some (Inl e, s1) \<Rightarrow> Some (Inl e, s1)
      | Some (Inr def', s1) \<Rightarrow>
          (case mapDefinitionsAt fuel s1 rest variables directiveResolvers of
             None \<Rightarrow> None
           | Some (Inl e, s2) \<Rightarrow> Some (Inl e, s2)
           | Some (Inr rest', s2) \<Rightarrow> Some (Inr (def' # rest'), s2)))"

text \<open>
  \<^verbatim>\<open>applyDirectives\<close> (lines 28 to 56) in place: the copy is made first, every write
  that follows goes through references read from the copy, and the reference of the copy
  is returned.
\<close>

definition applyDirectivesAt ::
  "nat \<Rightarrow> store \<Rightarrow> ref \<Rightarrow> variables option \<Rightarrow> registry option
     \<Rightarrow> ((error + ref) \<times> store) option" where
  "applyDirectivesAt fuel s doc variablesArg directiveResolversArg =
    (let variables = orEmpty variablesArg;
         directiveResolvers = orEmpty directiveResolversArg
     in
     case cloneDeepAt fuel s doc of
       None \<Rightarrow> None
     | Some (Inl e, s1) \<Rightarrow> Some (Inl e, s1)
     | Some (Inr newDoc, s1) \<Rightarrow>
        (case getFragmentDefinitionsAt s1 newDoc of
           Inl e \<Rightarrow> Some (Inl e, s1)
         | Inr fragmentDefs \<Rightarrow>
            (case getQueryDefinitionAt s1 newDoc of
               Inl e \<Rightarrow> Some (Inl e, s1)
             | Inr queryDef \<Rightarrow>
                (case rewriteDefinitionAt fuel s1 queryDef variables directiveResolvers of
                   None \<Rightarrow> None
                 | Some (Inl e, s2) \<Rightarrow> Some (Inl e, s2)
                 | Some (Inr queryDef', s2) \<Rightarrow>
                    (case mapDefinitionsAt fuel s2 fragmentDefs variables
                            directiveResolvers of
                       None \<Rightarrow> None
                     | Some (Inl e, s3) \<Rightarrow> Some (Inl e, s3)
                     | Some (Inr defs, s3) \<Rightarrow>
                        Some (Inr newDoc,
                              writeObject newDoc (DocumentObject (queryDef' # defs)) s3))))))"

text \<open>
  The document a reference stands for, read back from the store (\<open>None\<close> when the
  fuel does not reach the leaves, or when what is stored is not a document).
\<close>

fun readSelectionAt :: "nat \<Rightarrow> store \<Rightarrow> ref \<Rightarrow> selection option"
  and readSelectionSetAt :: "nat \<Rightarrow> store \<Rightarrow> ref \<Rightarrow> selectionSet option"
  and readSelectionsAt :: "nat \<Rightarrow> store \<Rightarrow> element list \<Rightarrow> selection list option" where
  "readSelectionAt 0 s a = None"
| "readSelectionAt (Suc fuel) s a =
     (case heap s a of
        Some (FieldObject n ds None) \<Rightarrow> Some (Field n ds None)
      | Some (FieldObject n ds (Some selSet)) \<Rightarrow>
          map_option (\<lambda>ss. Field n ds (Some ss)) (readSelectionSetAt fuel s selSet)
      | Some (InlineFragmentObject ds selSet) \<Rightarrow>
          map_option (InlineFragment ds) (readSelectionSetAt fuel s selSet)
      | Some (FragmentSpreadObject n ds) \<Rightarrow> Some (FragmentSpread n ds)
      | other \<Rightarrow> None)"
| "readSelectionSetAt 0 s a = None"
| "readSelectionSetAt (Suc fuel) s a =
     (case heap s a of
        Some (SelectionSetObject sels) \<Rightarrow> map_option SelectionSet (readSelectionsAt fuel s sels)
      | other \<Rightarrow> None)"
| "readSelectionsAt fuel s [] = Some []"
| "readSelectionsAt fuel s (Pointer a # rest) =
     (case readSelectionAt fuel s a of
        None \<Rightarrow> None
      | Some sel \<Rightarrow> map_option ((#) sel) (readSelectionsAt fuel s rest))"
| "readSelectionsAt fuel s (Primitive str # rest) =
     map_option ((#) (PrimitiveString str)) (readSelectionsAt fuel s rest)"

definition readDefinitionAt :: "nat \<Rightarrow> store \<Rightarrow> ref \<Rightarrow> definitionNode option" where
  "readDefinitionAt fuel s a =
     (case heap s a of
        Some (OperationDefinitionObject operation n selSet) \<Rightarrow>
          map_option (OperationDefinition operation n) (readSelectionSetAt fuel s selSet)
      | Some (FragmentDefinitionObject n selSet) \<Rightarrow>
          map_option (FragmentDefinition n) (readSelectionSetAt fuel s selSet)
      | other \<Rightarrow> None)"

fun readDefinitionsAt :: "nat \<Rightarrow> store \<Rightarrow> ref list \<Rightarrow> definitionNode list option" where
  "readDefinitionsAt fuel s [] = Some []"
| "readDefinitionsAt fuel s (a # rest) =
     (case readDefinitionAt fuel s a of
        None \<Rightarrow> None
      | Some d \<Rightarrow> map_option ((#) d) (readDefinitionsAt fuel s rest))"

definition readDocumentAt :: "nat \<Rightarrow> store \<Rightarrow> ref \<Rightarrow> document option" where
  "readDocumentAt fuel s a =
     (case heap s a of
        Some (DocumentObject defs) \<Rightarrow> map_option Document (readDefinitionsAt fuel s defs)
      | other \<Rightarrow> None)"

section \<open>The polling scheduler\<close>

text \<open>
  Modelled from the spec: the polling scheduler. \<^verbatim>\<open>src/scheduler.ts\<close> is not among the
  sources; only its test, \<^verbatim>\<open>test/scheduler.ts\<close>, is. The state is the spec's: the
  registered polling queries, each with its one timer (\<open>pollingTimers\<close>), and the
  InFlightSet (\<open>inFlightQueries\<close>, the name the test reads). \<open>outstanding\<close> lists
  the executions handed to the external \<^verbatim>\<open>execute()\<close> that have not completed yet, one
  entry per execution; \<open>nextQueryId\<close> makes the identifiers unique.
\<close>

type_synonym queryId = nat

record pollingQueryDescriptor =
  descriptorQuery :: document
  descriptorVariables :: variables
  pollIntervalMillis :: "int option"

record scheduler =
  pollingTimers :: "queryId \<rightharpoonup> pollingQueryDescriptor"
  inFlightQueries :: "queryId \<rightharpoonup> pollingQueryDescriptor"
  outstanding :: "queryId list"
  nextQueryId :: queryId

definition newScheduler :: scheduler where
  "newScheduler =
     \<lparr>pollingTimers = Map.empty, inFlightQueries = Map.empty, outstanding = [],
      nextQueryId = 0\<rparr>"

text \<open>
  Modelled from the spec: step 2 of the tick (``add the QueryId to the InFlightSet, invoke
  the external execute() collaborator'').
\<close>

definition fetchQuery :: "queryId \<Rightarrow> pollingQueryDescriptor \<Rightarrow> scheduler \<Rightarrow> scheduler" where
  "fetchQuery queryId descriptor s =
     s\<lparr>inFlightQueries := (inFlightQueries s)(queryId \<mapsto> descriptor),
       outstanding := outstanding s @ [queryId]\<rparr>"

text \<open>
  Modelled from the spec: \<^verbatim>\<open>startPollingQuery\<close> ``requires
  descriptor.pollIntervalMillis to be a positive value; absence or non-positive value is an
  error''; otherwise it ``registers a new QueryId, starts a recurring timer, and returns
  immediately''. The first execution is started at once: the test (lines 208 to 212)
  finds the query in \<^verbatim>\<open>inFlightQueries\<close> ``as soon as we register a query''.
\<close>

definition startPollingQuery ::
  "pollingQueryDescriptor \<Rightarrow> scheduler \<Rightarrow> error + queryId \<times> scheduler" where
  "startPollingQuery descriptor s =
     (case pollIntervalMillis descriptor of
        None \<Rightarrow> Inl PollingConfigurationError
      | Some interval \<Rightarrow>
          if interval \<le> 0 then Inl PollingConfigurationError
          else
            let queryId = nextQueryId s;
                registered = s\<lparr>pollingTimers := (pollingTimers s)(queryId \<mapsto> descriptor),
                               nextQueryId := Suc queryId\<rparr>
            in Inr (queryId, fetchQuery queryId descriptor registered))"

text \<open>
  Modelled from the spec: \<^verbatim>\<open>registerPollingQuery\<close> is the ``convenience wrapper that
  internally calls startPollingQuery''; the observable it returns is identified with the
  QueryId, and unsubscribing is \<open>stopPollingQuery\<close>.
\<close>

definition registerPollingQuery ::
  "pollingQueryDescriptor \<Rightarrow> scheduler \<Rightarrow> error + queryId \<times> scheduler" where
  "registerPollingQuery descriptor s = startPollingQuery descriptor s"

text \<open>
  Modelled from the spec: \<^verbatim>\<open>stopPollingQuery\<close> ``cancels the timer and removes all
  bookkeeping (in-flight entry, listener) for that id''. An execution already outstanding
  runs to completion.
\<close>

definition stopPollingQuery :: "queryId \<Rightarrow> scheduler \<Rightarrow> scheduler" where
  "stopPollingQuery queryId s =
     s\<lparr>pollingTimers := (pollingTimers s)(queryId := None),
       inFlightQueries := (inFlightQueries s)(queryId := None)\<rparr>"

text \<open>
  Modelled from the spec: the tick of a timer. A cancelled timer does not fire; ``if the
  QueryId is currently present in the InFlightSet, skip this tick entirely''; otherwise
  start an execution.
\<close>

definition tick :: "queryId \<Rightarrow> scheduler \<Rightarrow> scheduler" where
  "tick queryId s =
     (case pollingTimers s queryId of
        None \<Rightarrow> s
      | Some descriptor \<Rightarrow>
          if queryId \<in> dom (inFlightQueries s) then s
          else fetchQuery queryId descriptor s)"

text \<open>
  Modelled from the spec: an outstanding execution completes, with a result or an error
  (``remove the QueryId from the InFlightSet and deliver the outcome'').
\<close>

definition complete :: "queryId \<Rightarrow> scheduler \<Rightarrow> scheduler" where
  "complete queryId s =
     (if queryId \<in> set (outstanding s)
      then s\<lparr>inFlightQueries := (inFlightQueries s)(queryId := None),
             outstanding := remove1 queryId (outstanding s)\<rparr>
      else s)"

text \<open>
  What can happen to a scheduler, in any order: calls of its operations, timers firing,
  executions completing. A registration that raises leaves the scheduler as it was.
\<close>

datatype event =
    StartPollingQuery pollingQueryDescriptor
  | StopPollingQuery queryId
  | Tick queryId
  | Complete queryId

fun step :: "scheduler \<Rightarrow> event \<Rightarrow> scheduler" where
  "step s (StartPollingQuery descriptor) =
     (case startPollingQuery descriptor s of Inl e \<Rightarrow> s | Inr (queryId, s') \<Rightarrow> s')"
| "step s (StopPollingQuery queryId) = stopPollingQuery queryId s"
| "step s (Tick queryId) = tick queryId s"
| "step s (Complete queryId) = complete queryId s"

definition run :: "event list \<Rightarrow> scheduler" where
  "run events = foldl step newScheduler events"

section \<open>Vocabulary of the properties\<close>

text \<open>
  What the condition of a well-formed conditional directive resolves to: the literal, or
  the truthiness of the variable's value.
\<close>

fun resolvesTo :: "variables \<Rightarrow> valueNode option \<Rightarrow> bool \<Rightarrow> bool" where
  "resolvesTo variables (Some (BooleanValue c)) b = (b = c)"
| "resolvesTo variables (Some (Variable x)) b =
     (getVariable variables x \<noteq> JSUndefined \<and> b = truthy (getVariable variables x))"
| "resolvesTo variables other b = False"

fun isBooleanOrVariable :: "valueNode option \<Rightarrow> bool" where
  "isBooleanOrVariable (Some (BooleanValue c)) = True"
| "isBooleanOrVariable (Some (Variable x)) = True"
| "isBooleanOrVariable other = False"

text \<open>
  A variable reference whose name the variables do not hold, or hold bound to
  \<^verbatim>\<open>undefined\<close>.
\<close>

fun isUndefinedVariable :: "variables \<Rightarrow> valueNode option \<Rightarrow> bool" where
  "isUndefinedVariable variables (Some (Variable x)) =
     (variables x = None \<or> variables x = Some JSUndefined)"
| "isUndefinedVariable variables other = False"

text \<open>
  A variable reference whose name the variables do not hold and inherit from
  \<^verbatim>\<open>Object.prototype\<close>, such as \<^verbatim>\<open>$toString\<close>.
\<close>

fun isInheritedVariable :: "variables \<Rightarrow> valueNode option \<Rightarrow> bool" where
  "isInheritedVariable variables (Some (Variable x)) =
     (variables x = None \<and> objectPrototype x \<noteq> None)"
| "isInheritedVariable variables other = False"

text \<open>A conditional directive \<^verbatim>\<open>@name(if: condition)\<close>.\<close>

definition conditional :: "string \<Rightarrow> valueNode \<Rightarrow> directive" where
  "conditional directiveName condition =
     Directive (Some directiveName) [Argument (Some ''if'') (Some condition)]"

text \<open>The registry holding both resolvers of the file under their own names.\<close>

definition skipAndInclude :: registry where
  "skipAndInclude = [''skip'' \<mapsto> SkipDirectiveResolver, ''include'' \<mapsto> IncludeDirectiveResolver]"

text \<open>A selection without what it nests: its kind, name and directives.\<close>

fun shallow :: "selection \<Rightarrow> selection" where
  "shallow (Field n ds sso) = Field n ds None"
| "shallow (InlineFragment ds ss) = InlineFragment ds (SelectionSet [])"
| "shallow (FragmentSpread n ds) = FragmentSpread n ds"
| "shallow (PrimitiveString str) = PrimitiveString str"

text \<open>Every directive that occurs in a selection, a selection set, a document.\<close>

fun selectionDirectives :: "selection \<Rightarrow> directive list"
  and selectionSetDirectives :: "selectionSet \<Rightarrow> directive list"
  and selectionsDirectives :: "selection list \<Rightarrow> directive list" where
  "selectionDirectives (Field n ds None) = ds"
| "selectionDirectives (Field n ds (Some ss)) = ds @ selectionSetDirectives ss"
| "selectionDirectives (InlineFragment ds ss) = ds @ selectionSetDirectives ss"
| "selectionDirectives (FragmentSpread n ds) = ds"
| "selectionDirectives (PrimitiveString str) = []"
| "selectionSetDirectives (SelectionSet sels) = selectionsDirectives sels"
| "selectionsDirectives [] = []"
| "selectionsDirectives (sel # rest) = selectionDirectives sel @ selectionsDirectives rest"

definition documentDirectives :: "document \<Rightarrow> directive list" where
  "documentDirectives doc =
     concat (map (\<lambda>d. selectionSetDirectives (definitionSelectionSet d)) (definitions doc))"

text \<open>
  A directive whose call returns a string: its name is \<^verbatim>\<open>toString\<close> and the registry
  holds no resolver of that name, so that line 73 finds \<^verbatim>\<open>Object.prototype.toString\<close>.
\<close>

definition callsToString :: "registry \<Rightarrow> directive \<Rightarrow> bool" where
  "callsToString directiveResolvers directive =
     (case dir_name directive of
        None \<Rightarrow> False
      | Some n \<Rightarrow> n \<noteq> [] \<and> getResolver directiveResolvers n = Some (Member ToString))"


text \<open>The locals of the callback, with every selection in them replaced.\<close>

definition mapLocals :: "('a \<Rightarrow> 'b) \<Rightarrow> 'a locals \<Rightarrow> 'b locals" where
  "mapLocals f st =
     \<lparr>newSelection = map_returned f (newSelection st),
      currSelection = f (currSelection st),
      toBeRemoved = toBeRemoved st\<rparr>"

text \<open>
  The locals name the selection the callback was called on: when \<^verbatim>\<open>newSelection\<close> is
  a selection, it is that one.
\<close>

definition sameObject :: "'sel \<Rightarrow> 'sel locals \<Rightarrow> bool" where
  "sameObject sel st \<longleftrightarrow>
     currSelection st = sel \<and> (\<forall>newSel. newSelection st = Selection newSel \<longrightarrow> newSel = sel)"

text \<open>
  The invariant of the scheduler: no query has two outstanding executions, identifiers
  are not reused, and a registered query with an outstanding execution is in the
  InFlightSet.
\<close>

definition schedulerInvariant :: "scheduler \<Rightarrow> bool" where
  "schedulerInvariant s \<longleftrightarrow>
     distinct (outstanding s)
     \<and> (\<forall>q \<in> set (outstanding s). q < nextQueryId s)
     \<and> (\<forall>q \<in> dom (pollingTimers s). q < nextQueryId s)
     \<and> (\<forall>q \<in> set (outstanding s). q \<in> dom (pollingTimers s) \<longrightarrow> q \<in> dom (inFlightQueries s))"

text \<open>
  A store is well formed when every object lies below \<open>nextRef\<close> and refers below
  it: no reference is handed out twice.
\<close>

definition wfStore :: "store \<Rightarrow> bool" where
  "wfStore s \<longleftrightarrow>
     (\<forall>a obj. heap s a = Some obj \<longrightarrow>
        a < nextRef s \<and> (\<forall>c \<in> set (refsOf obj). c < nextRef s))"

text \<open>
  The objects from \<open>lo\<close> upwards refer only to objects from \<open>lo\<close> upwards; nothing
  below \<open>lo\<close> has changed.
\<close>

definition closedAbove :: "ref \<Rightarrow> store \<Rightarrow> bool" where
  "closedAbove lo s \<longleftrightarrow>
     (\<forall>a obj. lo \<le> a \<longrightarrow> heap s a = Some obj \<longrightarrow> (\<forall>c \<in> set (refsOf obj). lo \<le> c))"

definition unchangedBelow :: "ref \<Rightarrow> store \<Rightarrow> store \<Rightarrow> bool" where
  "unchangedBelow lo s s' \<longleftrightarrow> (\<forall>a < lo. heap s' a = heap s a)"

text \<open>What a reference reaches is nested at most \<open>n\<close> levels deep.\<close>

fun boundedDepth :: "nat \<Rightarrow> store \<Rightarrow> ref \<Rightarrow> bool" where
  "boundedDepth 0 s a = False"
| "boundedDepth (Suc n) s a =
     (case heap s a of
        None \<Rightarrow> True
      | Some obj \<Rightarrow> (\<forall>c \<in> set (refsOf obj). boundedDepth n s c))"

text \<open>
  What copying does to a store (\<open>extends\<close>), what rewriting in place does
  (\<open>inPlace\<close>), and the only change rewriting makes to an object: it refers to fewer
  objects (\<open>shrinks\<close>).
\<close>

definition extends :: "ref \<Rightarrow> store \<Rightarrow> store \<Rightarrow> bool" where
  "extends lo s s' \<longleftrightarrow>
     wfStore s' \<and> closedAbove lo s' \<and> nextRef s \<le> nextRef s' \<and> unchangedBelow (nextRef s) s s'"

definition inPlace :: "ref \<Rightarrow> store \<Rightarrow> store \<Rightarrow> bool" where
  "inPlace lo s s' \<longleftrightarrow> unchangedBelow lo s s' \<and> closedAbove lo s'"

definition shrinks :: "store \<Rightarrow> store \<Rightarrow> bool" where
  "shrinks s s' \<longleftrightarrow>
     (\<forall>a. heap s' a = heap s a \<or>
        (\<exists>obj obj'. heap s a = Some obj \<and> heap s' a = Some obj'
           \<and> set (refsOf obj') \<subseteq> set (refsOf obj)))"

text \<open>
  When a selection set of the store is a tree, it stands for a selection set value. The
  predicate below says so, and more: the objects of the selection at \<open>a\<close> lie in the interval
  from \<open>lo\<close> to \<open>a\<close>, every object is above the objects it refers to, and the selections of one
  array occupy consecutive disjoint intervals. This is the shape \<^verbatim>\<open>cloneDeep\<close> produces, and no
  two selections of such a set share an object.
\<close>

fun ownsSelection :: "store \<Rightarrow> ref \<Rightarrow> ref \<Rightarrow> selection \<Rightarrow> bool"
  and ownsSelectionSet :: "store \<Rightarrow> ref \<Rightarrow> ref \<Rightarrow> selectionSet \<Rightarrow> bool"
  and ownsSelections :: "store \<Rightarrow> ref \<Rightarrow> element list \<Rightarrow> selection list \<Rightarrow> bool" where
  "ownsSelection s lo a (Field n ds None) =
     (lo \<le> a \<and> heap s a = Some (FieldObject n ds None))"
| "ownsSelection s lo a (Field n ds (Some ss)) =
     (\<exists>b. heap s a = Some (FieldObject n ds (Some b)) \<and> b < a \<and> ownsSelectionSet s lo b ss)"
| "ownsSelection s lo a (InlineFragment ds ss) =
     (\<exists>b. heap s a = Some (InlineFragmentObject ds b) \<and> b < a \<and> ownsSelectionSet s lo b ss)"
| "ownsSelection s lo a (FragmentSpread n ds) =
     (lo \<le> a \<and> heap s a = Some (FragmentSpreadObject n ds))"
| "ownsSelection s lo a (PrimitiveString str) = False"
| "ownsSelectionSet s lo a (SelectionSet sels) =
     (\<exists>elements. heap s a = Some (SelectionSetObject elements) \<and> lo \<le> a
        \<and> (\<forall>c \<in> set (elementRefs elements). c < a)
        \<and> ownsSelections s lo elements sels)"
| "ownsSelections s lo [] [] = True"
| "ownsSelections s lo (Pointer c # cs) (t # ts) =
     (ownsSelection s lo c t \<and> ownsSelections s (Suc c) cs ts)"
| "ownsSelections s lo (Primitive str # cs) (t # ts) =
     (t = PrimitiveString str \<and> ownsSelections s lo cs ts)"
| "ownsSelections s lo [] (t # ts) = False"
| "ownsSelections s lo (c # cs) [] = False"

text \<open>A store holding the document of \<^verbatim>\<open>{ author @skip(if: $omit) { firstName } name }\<close>.\<close>

definition exampleStore :: store where
  "exampleStore =
     \<lparr>heap =
        [0 \<mapsto> FieldObject ''firstName'' [] None,
         1 \<mapsto> SelectionSetObject [Pointer 0],
         2 \<mapsto> FieldObject ''author'' [conditional ''skip'' (Variable ''omit'')] (Some 1),
         3 \<mapsto> FieldObject ''name'' [] None,
         4 \<mapsto> SelectionSetObject [Pointer 2, Pointer 3],
         5 \<mapsto> OperationDefinitionObject Query None 4,
         6 \<mapsto> DocumentObject [5]],
      nextRef = 7\<rparr>"

section \<open>Whatever is called hands back the selection it was given\<close>

lemma resolver_natural:
  "skipIncludeDirectiveResolver nm (f s) v d =
     map_sum id (map_option f) (skipIncludeDirectiveResolver nm s v d)"
  by (auto simp: skipIncludeDirectiveResolver_def Let_def
      split: option.splits valueNode.splits sum.splits)

lemma callResolver_natural:
  "callResolver res (f s) v d = map_sum id (map_option f) (callResolver res s v d)"
  by (cases res) (simp_all add: skipDirectiveResolver_def includeDirectiveResolver_def resolver_natural)

lemma ofOption_map: "ofOption (map_option f r) = map_returned f (ofOption r)"
  by (cases r) simp_all

lemma callMember_natural:
  "callMember m (f s) = map_sum id (map_returned f) (callMember m s)"
  by (cases m) simp_all

lemma callDirectiveResolver_natural:
  "callDirectiveResolver c (f s) v d =
     map_sum id (map_returned f) (callDirectiveResolver c s v d)"
proof (cases c)
  case None
  then show ?thesis by simp
next
  case (Some found)
  show ?thesis
  proof (cases found)
    case (Resolver res)
    then show ?thesis using Some
      by (cases "callResolver res s v d") (simp_all add: callResolver_natural[of _ f] ofOption_map)
  next
    case (Member m)
    then show ?thesis using Some by (simp add: callMember_natural)
  qed
qed

lemma forEachBody_natural:
  "forEachBody (f sel) v r (mapLocals f st) d = map_sum id (mapLocals f) (forEachBody sel v r st d)"
proof (cases "dir_name d")
  case None
  then show ?thesis by (simp add: forEachBody_def)
next
  case (Some n)
  have cs: "currSelection (mapLocals f st) = f (currSelection st)"
    by (simp add: mapLocals_def)
  show ?thesis
  proof (cases "callDirectiveResolver (getResolver r n) (currSelection st) v d")
    case (Inl e)
    then show ?thesis using Some
      by (simp add: forEachBody_def cs callDirectiveResolver_natural[of _ f])
  next
    case (Inr res)
    then show ?thesis using Some
      by (cases res)
         (simp_all add: forEachBody_def cs callDirectiveResolver_natural[of _ f] mapLocals_def Let_def)
  qed
qed

lemma forEachDirective_natural:
  "forEachDirective (f sel) v r (mapLocals f st) ds =
     map_sum id (mapLocals f) (forEachDirective sel v r st ds)"
proof (induction ds arbitrary: st)
  case Nil
  then show ?case by simp
next
  case (Cons d ds)
  then show ?case
    by (cases "forEachBody sel v r st d") (simp_all add: forEachBody_natural)
qed

lemma resolver_result:
  "skipIncludeDirectiveResolver nm s v d = Inr res \<Longrightarrow> res = None \<or> res = Some s"
  by (auto simp: skipIncludeDirectiveResolver_def Let_def
      split: option.splits valueNode.splits sum.splits if_splits)

lemma callResolver_result:
  "callResolver res s v d = Inr out \<Longrightarrow> out = None \<or> out = Some s"
  by (cases res) (auto simp: skipDirectiveResolver_def includeDirectiveResolver_def dest: resolver_result)

lemma callMember_result:
  "callMember m s = Inr (Selection out) \<Longrightarrow> out = s"
  by (cases m) simp_all

lemma callDirectiveResolver_result:
  assumes "callDirectiveResolver c s v d = Inr (Selection out)"
  shows "out = s"
proof (cases c)
  case None
  then show ?thesis using assms by simp
next
  case (Some found)
  show ?thesis
  proof (cases found)
    case (Resolver res)
    then obtain r where r: "callResolver res s v d = Inr r" "ofOption r = Selection out"
      using assms Some by (cases "callResolver res s v d") auto
    then show ?thesis using callResolver_result[OF r(1)] by (cases r) auto
  next
    case (Member m)
    then show ?thesis using assms Some callMember_result by simp
  qed
qed

lemma forEachBody_sameObject:
  assumes "forEachBody sel v r st d = Inr st'" "sameObject sel st"
  shows "sameObject sel st'"
proof (cases "dir_name d")
  case None
  then show ?thesis using assms by (simp add: forEachBody_def)
next
  case (Some n)
  show ?thesis
  proof (cases "n = []")
    case True
    then show ?thesis using assms Some by (simp add: forEachBody_def)
  next
    case False
    from assms(1) Some False obtain res where
      res: "callDirectiveResolver (getResolver r n) (currSelection st) v d = Inr res"
      by (cases "callDirectiveResolver (getResolver r n) (currSelection st) v d")
         (simp_all add: forEachBody_def)
    have cs: "currSelection st = sel" using assms(2) by (simp add: sameObject_def)
    have same: "res = Selection out \<Longrightarrow> out = sel" for out
      using callDirectiveResolver_result[of "getResolver r n" sel v d out] res cs by simp
    show ?thesis
      using assms(1) Some False res cs same
      by (cases res) (auto simp: forEachBody_def sameObject_def Let_def split: if_splits)
  qed
qed

lemma forEachDirective_sameObject:
  "forEachDirective sel v r st ds = Inr st' \<Longrightarrow> sameObject sel st \<Longrightarrow> sameObject sel st'"
proof (induction ds arbitrary: st)
  case Nil
  then show ?case by simp
next
  case (Cons d ds)
  then show ?case
    by (auto split: sum.splits dest: forEachBody_sameObject)
qed

lemma runDirectives_sameObject:
  "runDirectives sel ds v r = Inr st \<Longrightarrow> sameObject sel st"
  unfolding runDirectives_def
  by (erule forEachDirective_sameObject) (simp add: sameObject_def)

lemma runDirectives_natural:
  "runDirectives (f sel) ds v r = map_sum id (mapLocals f) (runDirectives sel ds v r)"
  using forEachDirective_natural[of f sel v r
          "\<lparr>newSelection = Selection sel, currSelection = sel, toBeRemoved = None\<rparr>" ds]
  by (simp add: runDirectives_def mapLocals_def)

lemma applyDirectivesToSelection_node:
  "applyDirectivesToSelection sel v r = Inr st \<Longrightarrow> sel \<noteq> PrimitiveString str"
  by (auto simp: applyDirectivesToSelection_def)

lemma applyDirectivesToSelection_eq:
  assumes "\<And>str. sel \<noteq> PrimitiveString str"
  shows "applyDirectivesToSelection sel v r = runDirectives sel (directives sel) v r"
proof (cases sel)
  case (PrimitiveString str)
  then show ?thesis using assms[of str] by simp
qed (simp_all add: applyDirectivesToSelection_def)

lemma newSelection_is_selection:
  assumes "applyDirectivesToSelection sel v r = Inr st"
  shows "currSelection st = sel" and "newSelection st = Selection newSel \<Longrightarrow> newSel = sel"
proof -
  have "runDirectives sel (directives sel) v r = Inr st"
    using assms applyDirectivesToSelection_eq[of sel v r] applyDirectivesToSelection_node[OF assms]
    by simp
  from runDirectives_sameObject[OF this]
  show "currSelection st = sel" and "newSelection st = Selection newSel \<Longrightarrow> newSel = sel"
    by (simp_all add: sameObject_def)
qed

lemma applyDirectivesToSelection_directives:
  assumes "directives sel' = directives sel"
      and "\<And>str. sel \<noteq> PrimitiveString str" "\<And>str. sel' \<noteq> PrimitiveString str"
  shows "applyDirectivesToSelection sel' v r =
           map_sum id (mapLocals (\<lambda>_. sel')) (applyDirectivesToSelection sel v r)"
  using runDirectives_natural[of "\<lambda>_. sel'" sel "directives sel" v r]
  by (simp add: applyDirectivesToSelection_eq[OF assms(2)] applyDirectivesToSelection_eq[OF assms(3)]
        assms(1))

section \<open>The callback of the rewriter, case by case\<close>

lemma directives_setSelectionSet [simp]: "directives (setSelectionSet s ss) = directives s"
  by (cases s) simp_all

lemma filterIdentity_map_Some [simp]: "filterIdentity (map Some xs) = xs"
  by (induction xs) simp_all

lemma mapCallback_string [simp]: "mapCallback (PrimitiveString str) v r = Inl TypeError"
  by (subst mapCallback.simps) (simp add: applyDirectivesToSelection_def)

lemma mapCallback_node: "mapCallback sel v r = Inr res \<Longrightarrow> sel \<noteq> PrimitiveString str"
  by auto

lemma mapCallback_eq:
  "mapCallback sel v r =
     (case applyDirectivesToSelection sel v r of
        Inl e \<Rightarrow> Inl e
      | Inr st \<Rightarrow>
         (case newSelection st of
            Selection newSel \<Rightarrow>
              (case selectionSetOf sel of
                 Some ss \<Rightarrow>
                   (case applyDirectivesToSelectionSet ss v r of
                      Inl e \<Rightarrow> Inl e
                    | Inr ss' \<Rightarrow> Inr (Some (setSelectionSet newSel ss')))
               | None \<Rightarrow> Inr (Some newSel))
          | ReturnedString str \<Rightarrow>
              (case selectionSetOf sel of
                 Some ss \<Rightarrow>
                   (case applyDirectivesToSelectionSet ss v r of
                      Inl e \<Rightarrow> Inl e
                    | Inr ss' \<Rightarrow> Inr (stringElement str))
               | None \<Rightarrow> Inr (stringElement str))
          | Undefined \<Rightarrow>
              if toBeRemoved st \<noteq> Some True then Inr (Some (currSelection st))
              else Inr None))"
proof (cases sel)
  case (Field n ds sso)
  show ?thesis unfolding Field
    by (subst mapCallback.simps) (cases sso; simp split: sum.splits returned.splits)
next
  case (InlineFragment ds ss)
  show ?thesis unfolding InlineFragment
    by (subst mapCallback.simps) (simp split: sum.splits returned.splits)
next
  case (FragmentSpread n ds)
  show ?thesis unfolding FragmentSpread
    by (subst mapCallback.simps) (simp split: sum.splits returned.splits)
next
  case (PrimitiveString str)
  show ?thesis unfolding PrimitiveString
    by (simp add: applyDirectivesToSelection_def)
qed

lemma setSelectionSet_same [simp]:
  "selectionSetOf s = Some ss \<Longrightarrow> setSelectionSet s ss = s"
  by (cases s) auto

lemma selectionSetOf_setSelectionSet:
  "selectionSetOf s = Some ss \<Longrightarrow> selectionSetOf (setSelectionSet s ss') = Some ss'"
  by (cases s) auto

lemma setSelectionSet_twice [simp]:
  "setSelectionSet (setSelectionSet s ss) ss' = setSelectionSet s ss'"
  by (cases s) auto

lemma setSelectionSet_node:
  "s \<noteq> PrimitiveString str \<Longrightarrow> setSelectionSet s ss \<noteq> PrimitiveString str"
  by (cases s) auto

text \<open>The ways a selection is kept, and the way a string takes its place.\<close>

lemma mapCallback_kept:
  assumes "mapCallback sel v r = Inr (Some out)"
  obtains
    (unresolved) st where "applyDirectivesToSelection sel v r = Inr st"
      "newSelection st = Undefined" "toBeRemoved st \<noteq> Some True" "out = sel"
  | (leaf) st where "applyDirectivesToSelection sel v r = Inr st"
      "newSelection st = Selection sel" "selectionSetOf sel = None" "out = sel"
  | (nested) st ss ss' where "applyDirectivesToSelection sel v r = Inr st"
      "newSelection st = Selection sel" "selectionSetOf sel = Some ss"
      "applyDirectivesToSelectionSet ss v r = Inr ss'" "out = setSelectionSet sel ss'"
  | (string) st str where "applyDirectivesToSelection sel v r = Inr st"
      "newSelection st = ReturnedString str" "out = PrimitiveString str"
proof -
  note eq = mapCallback_eq[of sel v r]
  from assms obtain st where st: "applyDirectivesToSelection sel v r = Inr st"
    by (cases "applyDirectivesToSelection sel v r") (simp_all add: eq)
  note so = newSelection_is_selection[OF st]
  show thesis
  proof (cases "newSelection st")
    case Undefined
    with assms st so(1) have "toBeRemoved st \<noteq> Some True" "out = sel"
      by (simp_all add: eq split: if_splits)
    with st Undefined show ?thesis by (rule unresolved)
  next
    case (Selection newSel)
    then have ns: "newSelection st = Selection sel" using so(2) by simp
    show ?thesis
    proof (cases "selectionSetOf sel")
      case None
      with assms st ns have "out = sel" by (simp add: eq)
      with st ns None show ?thesis by (rule leaf)
    next
      case (Some ss)
      with assms st ns obtain ss' where
        "applyDirectivesToSelectionSet ss v r = Inr ss'" "out = setSelectionSet sel ss'"
        by (cases "applyDirectivesToSelectionSet ss v r") (simp_all add: eq)
      with st ns Some show ?thesis by (rule nested)
    qed
  next
    case (ReturnedString str)
    with assms st have "stringElement str = Some out"
      by (cases "selectionSetOf sel"; cases "applyDirectivesToSelectionSet (the (selectionSetOf sel)) v r")
         (simp_all add: eq)
    then have "out = PrimitiveString str"
      by (simp add: stringElement_def split: if_splits)
    with st ReturnedString show ?thesis by (rule string)
  qed
qed

text \<open>
  \<^verbatim>\<open>newSelection\<close> is a string only when the last directive called was one named
  \<^verbatim>\<open>toString\<close> that the registry holds no resolver for.
\<close>

lemma callDirectiveResolver_string:
  "callDirectiveResolver (getResolver r n) s v d = Inr (ReturnedString str) \<Longrightarrow>
     getResolver r n = Some (Member ToString)"
proof (cases "getResolver r n")
  case None
  assume "callDirectiveResolver (getResolver r n) s v d = Inr (ReturnedString str)"
  then show ?thesis using None by simp
next
  case (Some found)
  assume a: "callDirectiveResolver (getResolver r n) s v d = Inr (ReturnedString str)"
  show ?thesis
  proof (cases found)
    case (Resolver res)
    then obtain out where "callResolver res s v d = Inr out" "ofOption out = ReturnedString str"
      using a Some by (cases "callResolver res s v d") auto
    then show ?thesis by (cases out) simp_all
  next
    case (Member m)
    then show ?thesis using a Some by (cases m) simp_all
  qed
qed

lemma skip_and_include_return_no_string:
  assumes "n = ''skip'' \<or> n = ''include''"
  shows "callDirectiveResolver (getResolver r n) s v d \<noteq> Inr (ReturnedString str)"
proof
  assume "callDirectiveResolver (getResolver r n) s v d = Inr (ReturnedString str)"
  then have "getResolver r n = Some (Member ToString)"
    by (rule callDirectiveResolver_string)
  then show False using assms
    by (auto simp: getResolver_def objectPrototype_def split: option.splits)
qed

lemma forEachBody_string:
  assumes "forEachBody sel v r st d = Inr st'" "newSelection st' = ReturnedString str"
      and "\<not> callsToString r d"
  shows "newSelection st = ReturnedString str"
proof (cases "dir_name d")
  case None
  then show ?thesis using assms by (simp add: forEachBody_def)
next
  case (Some n)
  show ?thesis
  proof (cases "n = []")
    case True
    then show ?thesis using assms Some by (simp add: forEachBody_def)
  next
    case False
    from assms(1) Some False obtain res where
      res: "callDirectiveResolver (getResolver r n) (currSelection st) v d = Inr res"
      by (cases "callDirectiveResolver (getResolver r n) (currSelection st) v d")
         (simp_all add: forEachBody_def)
    have "res \<noteq> ReturnedString str"
      using callDirectiveResolver_string[of r n "currSelection st" v d str] res assms(3) Some False
      by (auto simp: callsToString_def)
    moreover have "newSelection st' = res"
      using assms(1) Some False res
      by (cases res) (auto simp: forEachBody_def Let_def split: if_splits)
    ultimately show ?thesis using assms(2) by simp
  qed
qed

lemma forEachDirective_string:
  "forEachDirective sel v r st ds = Inr st' \<Longrightarrow> newSelection st' = ReturnedString str \<Longrightarrow>
     \<forall>d \<in> set ds. \<not> callsToString r d \<Longrightarrow> newSelection st = ReturnedString str"
proof (induction ds arbitrary: st)
  case Nil
  then show ?case by simp
next
  case (Cons d ds)
  from Cons.prems(1) obtain st1 where one: "forEachBody sel v r st d = Inr st1"
    and rest: "forEachDirective sel v r st1 ds = Inr st'"
    by (auto split: sum.splits)
  have "newSelection st1 = ReturnedString str"
    using Cons.IH[OF rest Cons.prems(2)] Cons.prems(3) by simp
  then show ?case using forEachBody_string[OF one] Cons.prems(3) by simp
qed

lemma applyDirectivesToSelection_string:
  assumes "applyDirectivesToSelection sel v r = Inr st"
      and "\<forall>d \<in> set (directives sel). \<not> callsToString r d"
  shows "newSelection st \<noteq> ReturnedString str"
proof
  assume "newSelection st = ReturnedString str"
  have "runDirectives sel (directives sel) v r = Inr st"
    using assms(1) applyDirectivesToSelection_eq[of sel v r]
      applyDirectivesToSelection_node[OF assms(1)]
    by simp
  from forEachDirective_string[OF this[unfolded runDirectives_def]
         \<open>newSelection st = ReturnedString str\<close> assms(2)]
  show False by simp
qed

lemma mapCallback_directives:
  assumes "mapCallback sel v r = Inr (Some out)"
      and "\<forall>d \<in> set (directives sel). \<not> callsToString r d"
  shows "directives out = directives sel"
  using assms(1)
proof (cases rule: mapCallback_kept)
  case (string st str)
  then show ?thesis using applyDirectivesToSelection_string[OF string(1) assms(2)] by simp
qed simp_all

section \<open>Rewriting twice\<close>

text \<open>
  A second pass over a rewritten selection set changes nothing, unless the first pass put
  a string in it: a surviving selection still carries its directives, they resolve as
  before, and what it nests was rewritten by the first pass.
\<close>

lemma directives_selectionDirectives:
  "set (directives sel) \<subseteq> set (selectionDirectives sel)"
  by (cases sel rule: selectionDirectives.cases) simp_all

lemma selectionSetOf_selectionDirectives:
  "selectionSetOf sel = Some ss \<Longrightarrow>
     set (selectionSetDirectives ss) \<subseteq> set (selectionDirectives sel)"
  by (cases sel rule: selectionDirectives.cases) auto

lemma idem_aux:
  "(applyDirectivesToSelectionSet ss v r = Inr ss' \<longrightarrow>
      (\<forall>d \<in> set (selectionSetDirectives ss). \<not> callsToString r d) \<longrightarrow>
      applyDirectivesToSelectionSet ss' v r = Inr ss')"
  "(mapSelections sels v r = Inr mapped \<longrightarrow>
      (\<forall>d \<in> set (selectionsDirectives sels). \<not> callsToString r d) \<longrightarrow>
      mapSelections (filterIdentity mapped) v r = Inr (map Some (filterIdentity mapped)))"
  "(mapCallback sel v r = Inr (Some out) \<longrightarrow>
      (\<forall>d \<in> set (selectionDirectives sel). \<not> callsToString r d) \<longrightarrow>
      mapCallback out v r = Inr (Some out))"
proof (induction ss v r and sels v r and sel v r arbitrary: ss' and mapped and out
       rule: applyDirectivesToSelectionSet_mapSelections_mapCallback.induct)
  case (1 sels variables directiveResolvers)
  then show ?case by (auto split: sum.splits)
next
  case (2 variables directiveResolvers)
  then show ?case by auto
next
  case (3 selection rest variables directiveResolvers)
  show ?case
  proof (intro impI)
    assume a: "mapSelections (selection # rest) variables directiveResolvers = Inr mapped"
      and no: "\<forall>d \<in> set (selectionsDirectives (selection # rest)).
                 \<not> callsToString directiveResolvers d"
    then obtain r rs where r: "mapCallback selection variables directiveResolvers = Inr r"
      and rs: "mapSelections rest variables directiveResolvers = Inr rs"
      and m: "mapped = r # rs"
      by (auto split: sum.splits)
    have tl: "mapSelections (filterIdentity rs) variables directiveResolvers =
                Inr (map Some (filterIdentity rs))"
      using "3.IH"(2)[OF r] rs no by simp
    show "mapSelections (filterIdentity mapped) variables directiveResolvers =
            Inr (map Some (filterIdentity mapped))"
    proof (cases r)
      case None
      then show ?thesis using m tl by simp
    next
      case (Some out)
      then show ?thesis using m tl "3.IH"(1)[of out] r no by simp
    qed
  qed
next
  case (4 selection variables directiveResolvers)
  show ?case
  proof (intro impI)
    assume a: "mapCallback selection variables directiveResolvers = Inr (Some out)"
      and no: "\<forall>d \<in> set (selectionDirectives selection). \<not> callsToString directiveResolvers d"
    have no': "\<forall>d \<in> set (directives selection). \<not> callsToString directiveResolvers d"
      using no directives_selectionDirectives by blast
    have node: "selection \<noteq> PrimitiveString str" for str
      using a by (rule mapCallback_node)
    from a show "mapCallback out variables directiveResolvers = Inr (Some out)"
    proof (cases rule: mapCallback_kept)
      case (unresolved st)
      then show ?thesis using a by simp
    next
      case (leaf st)
      then show ?thesis using a by simp
    next
      case (nested st ss ss')
      have noss: "\<forall>d \<in> set (selectionSetDirectives ss). \<not> callsToString directiveResolvers d"
        using no selectionSetOf_selectionDirectives[OF nested(3)] by blast
      have "applyDirectivesToSelectionSet ss' variables directiveResolvers = Inr ss'"
      proof (cases selection)
        case (Field n dirs sso)
        then show ?thesis using nested noss "4.IH"(1)[OF nested(1,2) Field] by auto
      next
        case (InlineFragment dirs ss0)
        then show ?thesis using nested noss "4.IH"(2)[OF nested(1,2) InlineFragment] by auto
      next
        case (FragmentSpread n dirs)
        then show ?thesis using nested by simp
      next
        case (PrimitiveString str)
        then show ?thesis using nested by simp
      qed
      moreover have ds: "directives out = directives selection"
        using nested(5) by simp
      have node': "out \<noteq> PrimitiveString str" for str
        unfolding nested(5) using node by (rule setSelectionSet_node)
      note nat = applyDirectivesToSelection_directives[OF ds node node', of variables directiveResolvers]
      ultimately show ?thesis
        using nested nat selectionSetOf_setSelectionSet[OF nested(3), of ss']
        by (simp add: mapCallback_eq mapLocals_def)
    next
      case (string st str)
      then show ?thesis using applyDirectivesToSelection_string[OF string(1) no'] by simp
    qed
  qed
qed

section \<open>The conditional resolver (claim C7)\<close>

lemma getVariable_own:
  "\<not> isInheritedVariable variables (Some (Variable x)) \<Longrightarrow>
     getVariable variables x = JSUndefined \<longleftrightarrow>
       variables x = None \<or> variables x = Some JSUndefined"
  by (auto simp: getVariable_def split: option.splits)

text \<open>
  Claim C7, as the code has it. Leave aside a condition that refers to a variable the
  variables do not hold but inherit from \<^verbatim>\<open>Object.prototype\<close>. Then
  \<^verbatim>\<open>skipIncludeDirectiveResolver\<close> raises an error if and only if the directive does not
  have exactly one argument, or that argument is not named \<^verbatim>\<open>if\<close>, or its value is
  neither a literal boolean nor a variable reference, or it is a variable reference whose
  name the variables do not hold or hold bound to \<^verbatim>\<open>undefined\<close>. Otherwise the
  condition resolves to a boolean \<open>b\<close> (the literal, or the truthiness of the
  variable's value), which is inverted when the directive name is \<^verbatim>\<open>skip\<close>; the
  selection is returned when the outcome is true and \<^verbatim>\<open>undefined\<close> (\<open>Inr None\<close>) when
  it is false.
\<close>

theorem skipIncludeDirectiveResolver_spec:
  assumes "\<forall>a \<in> set (dir_arguments directive). \<not> isInheritedVariable variables (arg_value a)"
  shows "(isError (skipIncludeDirectiveResolver directiveName selection variables directive) \<longleftrightarrow>
      length (dir_arguments directive) \<noteq> 1
      \<or> (\<exists>a. dir_arguments directive = [a] \<and>
            (arg_name a \<noteq> Some ''if''
             \<or> \<not> isBooleanOrVariable (arg_value a)
             \<or> isUndefinedVariable variables (arg_value a))))
   \<and> (\<not> isError (skipIncludeDirectiveResolver directiveName selection variables directive) \<longrightarrow>
        (\<exists>a b. dir_arguments directive = [a] \<and> resolvesTo variables (arg_value a) b \<and>
           skipIncludeDirectiveResolver directiveName selection variables directive =
             Inr (if (if directiveName = ''skip'' then \<not> b else b) then Some selection else None)))"
proof (cases "dir_arguments directive")
  case Nil
  then show ?thesis by (simp add: skipIncludeDirectiveResolver_def)
next
  case (Cons a rest)
  show ?thesis
  proof (cases rest)
    case Nil
    have own: "\<not> isInheritedVariable variables (arg_value a)"
      using assms Cons by simp
    show ?thesis
    proof (cases "arg_value a")
      case None
      then show ?thesis using Cons Nil
        by (simp add: skipIncludeDirectiveResolver_def split: option.splits)
    next
      case (Some val)
      show ?thesis
      proof (cases val)
        case (Variable x)
        note lookup = getVariable_own[OF own[unfolded Some Variable]]
        show ?thesis
        proof (cases "getVariable variables x = JSUndefined")
          case True
          then show ?thesis using Cons Nil Some Variable lookup
            by (cases "arg_name a") (auto simp: skipIncludeDirectiveResolver_def Let_def)
        next
          case False
          then show ?thesis using Cons Nil Some Variable lookup
            by (cases "arg_name a") (auto simp: skipIncludeDirectiveResolver_def Let_def)
        qed
      qed (use Cons Nil Some in
            \<open>cases "arg_name a"; auto simp: skipIncludeDirectiveResolver_def\<close>)+
    qed
  next
    case (Cons b rest')
    then show ?thesis using \<open>dir_arguments directive = a # rest\<close>
      by (simp add: skipIncludeDirectiveResolver_def)
  qed
qed

text \<open>
  At \<^verbatim>\<open>@skip(if: $omit)\<close>: with \<^verbatim>\<open>omit\<close> bound to true the selection is removed, and
  with no binding the resolver raises.
\<close>

theorem skipIncludeDirectiveResolver_spec_witness:
  "\<not> isError (skipIncludeDirectiveResolver ''skip'' (FragmentSpread ''details'' [])
        [''omit'' \<mapsto> JSBoolean True] (conditional ''skip'' (Variable ''omit'')))
   \<and> skipIncludeDirectiveResolver ''skip'' (FragmentSpread ''details'' [])
        [''omit'' \<mapsto> JSBoolean True] (conditional ''skip'' (Variable ''omit'')) = Inr None
   \<and> isError (skipIncludeDirectiveResolver ''skip'' (FragmentSpread ''details'' [])
        Map.empty (conditional ''skip'' (Variable ''omit'')))"
  using skipIncludeDirectiveResolver_spec[of "conditional ''skip'' (Variable ''omit'')"
          "[''omit'' \<mapsto> JSBoolean True]" "''skip''" "FragmentSpread ''details'' []"]
        skipIncludeDirectiveResolver_spec[of "conditional ''skip'' (Variable ''omit'')"
          "Map.empty" "''skip''" "FragmentSpread ''details'' []"]
  by (simp add: conditional_def objectPrototype_def getVariable_def skipIncludeDirectiveResolver_def)

text \<open>
  Claim C7 as stated has the resolver raise exactly when the variable's name is absent
  from the variables. With \<^verbatim>\<open>omit\<close> present and bound to \<^verbatim>\<open>undefined\<close>,
  \<^verbatim>\<open>@include(if: $omit)\<close> raises: line 136 tests the value that was read, not the
  presence of the name. And with no variables at all, \<^verbatim>\<open>@include(if: $toString)\<close> raises
  nothing and keeps the selection, \<^verbatim>\<open>@skip(if: $toString)\<close> removes it: line 135 finds
  the function every object inherits.
\<close>

theorem undefined_is_not_absent:
  "[''omit'' \<mapsto> JSUndefined] ''omit'' \<noteq> None
   \<and> skipIncludeDirectiveResolver ''include'' (FragmentSpread ''details'' [])
        [''omit'' \<mapsto> JSUndefined] (conditional ''include'' (Variable ''omit''))
      = Inl (InvalidVariable ''include'')
   \<and> (Map.empty :: variables) ''toString'' = None
   \<and> skipIncludeDirectiveResolver ''include'' (FragmentSpread ''details'' [])
        Map.empty (conditional ''include'' (Variable ''toString''))
      = Inr (Some (FragmentSpread ''details'' []))
   \<and> skipIncludeDirectiveResolver ''skip'' (FragmentSpread ''details'' [])
        Map.empty (conditional ''skip'' (Variable ''toString''))
      = Inr None"
  by (simp add: skipIncludeDirectiveResolver_def conditional_def getVariable_def
        objectPrototype_def)

section \<open>Skip and include on one selection (claim C1)\<close>

lemma resolver_conditional:
  "resolvesTo v (Some c) b \<Longrightarrow>
     skipIncludeDirectiveResolver nm sel v (conditional nm' c) =
       Inr (if (if nm = ''skip'' then \<not> b else b) then Some sel else None)"
  by (cases c) (auto simp: skipIncludeDirectiveResolver_def conditional_def Let_def)

lemma dir_name_conditional [simp]: "dir_name (conditional nm c) = Some nm"
  by (simp add: conditional_def)

lemma skipDirectiveResolver_conditional:
  "resolvesTo v (Some c) b \<Longrightarrow>
     skipDirectiveResolver sel v (conditional nm c) = Inr (if b then None else Some sel)"
  by (simp add: skipDirectiveResolver_def resolver_conditional)

lemma includeDirectiveResolver_conditional:
  "resolvesTo v (Some c) b \<Longrightarrow>
     includeDirectiveResolver sel v (conditional nm c) = Inr (if b then Some sel else None)"
  by (simp add: includeDirectiveResolver_def resolver_conditional)

lemma skip_then_include:
  assumes "r ''skip'' = Some SkipDirectiveResolver" "r ''include'' = Some IncludeDirectiveResolver"
      and "resolvesTo v (Some skipIf) s" "resolvesTo v (Some includeIf) i"
      and "directives sel = [conditional ''skip'' skipIf, conditional ''include'' includeIf]"
  shows "applyDirectivesToSelection sel v r =
           Inr \<lparr>newSelection = (if i then Selection sel else Undefined), currSelection = sel,
                toBeRemoved = Some (\<not> i \<and> s)\<rparr>"
proof -
  have node: "sel \<noteq> PrimitiveString str" for str
    using assms(5) by auto
  show ?thesis
    unfolding applyDirectivesToSelection_eq[OF node] runDirectives_def assms(5)
    using assms(1-4)
    by (cases s; cases i)
       (simp_all add: forEachBody_def Let_def getResolver_def
          skipDirectiveResolver_conditional includeDirectiveResolver_conditional)
qed

lemma include_then_skip:
  assumes "r ''skip'' = Some SkipDirectiveResolver" "r ''include'' = Some IncludeDirectiveResolver"
      and "resolvesTo v (Some skipIf) s" "resolvesTo v (Some includeIf) i"
      and "directives sel = [conditional ''include'' includeIf, conditional ''skip'' skipIf]"
  shows "applyDirectivesToSelection sel v r =
           Inr \<lparr>newSelection = (if s then Undefined else Selection sel), currSelection = sel,
                toBeRemoved = Some (\<not> i \<and> s)\<rparr>"
proof -
  have node: "sel \<noteq> PrimitiveString str" for str
    using assms(5) by auto
  show ?thesis
    unfolding applyDirectivesToSelection_eq[OF node] runDirectives_def assms(5)
    using assms(1-4)
    by (cases s; cases i)
       (simp_all add: forEachBody_def Let_def getResolver_def
          skipDirectiveResolver_conditional includeDirectiveResolver_conditional)
qed


lemma shallow_setSelectionSet [simp]:
  "selectionSetOf s = Some ss \<Longrightarrow> shallow (setSelectionSet s ss') = shallow s"
  by (cases s) auto

lemma mapCallback_shallow:
  assumes "mapCallback sel v r = Inr (Some out)"
      and "\<forall>d \<in> set (directives sel). \<not> callsToString r d"
  shows "shallow out = shallow sel"
  using assms(1)
proof (cases rule: mapCallback_kept)
  case (string st str)
  then show ?thesis using applyDirectivesToSelection_string[OF string(1) assms(2)] by simp
qed simp_all

lemma callsToString_own:
  "r n \<noteq> None \<Longrightarrow> \<not> callsToString r (conditional n c)"
  by (auto simp: callsToString_def conditional_def getResolver_def)

text \<open>
  Claim C1, as the code has it. Take a selection whose directives are \<^verbatim>\<open>@skip(if: s)\<close>
  and \<^verbatim>\<open>@include(if: i)\<close>, in either source order, and a registry holding both
  resolvers. The callback removes the selection exactly when skip resolves to true and
  include to false, that is, when both resolvers say remove. In every other case,
  \<^verbatim>\<open>@skip(if: true) @include(if: true)\<close> and \<^verbatim>\<open>@skip(if: false) @include(if: false)\<close>
  among them, the selection is kept: the callback returns it, with the kind, name and
  directives it had, unless rewriting the selection set it nests raised.
\<close>

theorem skip_include_conflict:
  assumes "directiveResolvers ''skip'' = Some SkipDirectiveResolver"
      and "directiveResolvers ''include'' = Some IncludeDirectiveResolver"
      and "resolvesTo variables (Some skipIf) s"
      and "resolvesTo variables (Some includeIf) i"
      and "directives selection = [conditional ''skip'' skipIf, conditional ''include'' includeIf]
           \<or> directives selection = [conditional ''include'' includeIf, conditional ''skip'' skipIf]"
  shows "(mapCallback selection variables directiveResolvers = Inr None \<longleftrightarrow> s \<and> \<not> i)
       \<and> (\<not> (s \<and> \<not> i) \<longrightarrow>
            (\<exists>out. mapCallback selection variables directiveResolvers = Inr (Some out)
                   \<and> shallow out = shallow selection)
            \<or> (\<exists>nested e. selectionSetOf selection = Some nested
                   \<and> applyDirectivesToSelectionSet nested variables directiveResolvers = Inl e
                   \<and> mapCallback selection variables directiveResolvers = Inl e))"
proof -
  have "\<exists>st. applyDirectivesToSelection selection variables directiveResolvers = Inr st
          \<and> toBeRemoved st = Some (\<not> i \<and> s) \<and> (s \<and> \<not> i \<longrightarrow> newSelection st = Undefined)"
    using assms(5)
  proof
    assume "directives selection = [conditional ''skip'' skipIf, conditional ''include'' includeIf]"
    from skip_then_include[OF assms(1-4) this] show ?thesis by simp
  next
    assume "directives selection = [conditional ''include'' includeIf, conditional ''skip'' skipIf]"
    from include_then_skip[OF assms(1-4) this] show ?thesis by simp
  qed
  then obtain st where st: "applyDirectivesToSelection selection variables directiveResolvers = Inr st"
    and tbr: "toBeRemoved st = Some (\<not> i \<and> s)"
    and ns: "s \<and> \<not> i \<Longrightarrow> newSelection st = Undefined"
    by blast
  have own: "\<forall>d \<in> set (directives selection). \<not> callsToString directiveResolvers d"
    using assms(1,2,5) callsToString_own[of directiveResolvers] by auto
  have nostr: "newSelection st \<noteq> ReturnedString str" for str
    using applyDirectivesToSelection_string[OF st own] .
  have removed: "mapCallback selection variables directiveResolvers = Inr None \<longleftrightarrow> s \<and> \<not> i"
  proof
    assume "mapCallback selection variables directiveResolvers = Inr None"
    then show "s \<and> \<not> i" using st tbr nostr
      by (cases "newSelection st"; cases "selectionSetOf selection")
         (auto simp: mapCallback_eq split: sum.splits if_splits)
  next
    assume "s \<and> \<not> i"
    then show "mapCallback selection variables directiveResolvers = Inr None"
      using st tbr ns by (simp add: mapCallback_eq)
  qed
  have kept: "(\<exists>out. mapCallback selection variables directiveResolvers = Inr (Some out)
                   \<and> shallow out = shallow selection)
            \<or> (\<exists>nested e. selectionSetOf selection = Some nested
                   \<and> applyDirectivesToSelectionSet nested variables directiveResolvers = Inl e
                   \<and> mapCallback selection variables directiveResolvers = Inl e)"
    if nr: "\<not> (s \<and> \<not> i)"
  proof (cases "mapCallback selection variables directiveResolvers")
    case (Inl e)
    then show ?thesis using st nostr
      by (cases "newSelection st"; cases "selectionSetOf selection")
         (auto simp: mapCallback_eq split: sum.splits if_splits)
  next
    case (Inr res)
    then obtain out where "res = Some out" using removed nr by (cases res) auto
    then show ?thesis using Inr mapCallback_shallow[OF _ own] by blast
  qed
  show ?thesis using removed kept by blast
qed


text \<open>The equations that evaluate the rewriter on a concrete document.\<close>

lemmas rewrite_eval =
  mapCallback.simps applyDirectivesToSelection_def runDirectives_def forEachBody_def conditional_def
  skipAndInclude_def skipDirectiveResolver_def includeDirectiveResolver_def
  skipIncludeDirectiveResolver_def getResolver_def getVariable_def objectPrototype_def
  stringElement_def Let_def

lemmas document_eval =
  applyDirectives_def applySkipResolver_def cloneDeep_def orEmpty_def getQueryDefinition_def
  getFragmentDefinitions_def rewriteDefinition_def

theorem skip_include_conflict_witness:
  "mapCallback
     (Field ''fortuneCookie''
        [conditional ''skip'' (BooleanValue True), conditional ''include'' (BooleanValue False)] None)
     Map.empty skipAndInclude = Inr None
   \<and> mapCallback
     (Field ''fortuneCookie''
        [conditional ''include'' (Variable ''yes''), conditional ''skip'' (Variable ''yes'')] None)
     [''yes'' \<mapsto> JSBoolean True] skipAndInclude
     = Inr (Some (Field ''fortuneCookie''
        [conditional ''include'' (Variable ''yes''), conditional ''skip'' (Variable ''yes'')] None))"
  using skip_include_conflict[of skipAndInclude Map.empty "BooleanValue True" True
          "BooleanValue False" False
          "Field ''fortuneCookie''
             [conditional ''skip'' (BooleanValue True), conditional ''include'' (BooleanValue False)]
             None"]
        skip_include_conflict[of skipAndInclude "[''yes'' \<mapsto> JSBoolean True]" "Variable ''yes''" True
          "Variable ''yes''" True
          "Field ''fortuneCookie''
             [conditional ''include'' (Variable ''yes''), conditional ''skip'' (Variable ''yes'')]
             None"]
  by (simp add: rewrite_eval)

text \<open>
  Claim C1 as stated has \<^verbatim>\<open>@skip(if: false) @include(if: false)\<close> removed. The code keeps
  the selection, in both orders: \<^verbatim>\<open>@skip(if: false)\<close> says keep.
\<close>

theorem both_false_is_kept:
  "applyDirectivesToSelectionSet
     (SelectionSet [Field ''fortuneCookie''
        [conditional ''skip'' (BooleanValue False), conditional ''include'' (BooleanValue False)] None])
     Map.empty skipAndInclude
   = Inr (SelectionSet [Field ''fortuneCookie''
        [conditional ''skip'' (BooleanValue False), conditional ''include'' (BooleanValue False)] None])
   \<and> applyDirectivesToSelectionSet
     (SelectionSet [Field ''fortuneCookie''
        [conditional ''include'' (BooleanValue False), conditional ''skip'' (BooleanValue False)] None])
     Map.empty skipAndInclude
   = Inr (SelectionSet [Field ''fortuneCookie''
        [conditional ''include'' (BooleanValue False), conditional ''skip'' (BooleanValue False)] None])"
  by (simp add: rewrite_eval)

section \<open>A directive with no resolver (claim C2)\<close>

text \<open>
  Claim C2 has a selection whose directive has no entry in the registry pass through
  unchanged, without an error. The code calls the result of the lookup without testing
  it (line 74), so the rewrite ends in a \<open>TypeError\<close>: for a directive
  \<^verbatim>\<open>@client\<close> under the registry of both resolvers, for the same document under the
  default registry of \<^verbatim>\<open>applyDirectives\<close> (the empty object of lines 35 to 37), and
  for \<^verbatim>\<open>@include\<close> under \<^verbatim>\<open>applySkipResolver\<close>, which registers \<^verbatim>\<open>skip\<close> alone.
\<close>

theorem unknown_directive_raises:
  "applyDirectivesToSelectionSet
     (SelectionSet [Field ''author'' [Directive (Some ''client'') []] None])
     Map.empty skipAndInclude = Inl TypeError
   \<and> applyDirectives
     (Document [OperationDefinition Query None
        (SelectionSet [Field ''author'' [Directive (Some ''client'') []] None])])
     None None = Inl TypeError
   \<and> applySkipResolver
     (Document [OperationDefinition Query None
        (SelectionSet [Field ''author'' [conditional ''include'' (BooleanValue True)] None])])
     None = Inl TypeError"
  by (simp add: rewrite_eval document_eval)

text \<open>
  A name that \<^verbatim>\<open>Object.prototype\<close> has is not without an entry: line 73 finds the
  inherited member and line 74 calls it. \<^verbatim>\<open>@constructor\<close> returns the selection,
  \<^verbatim>\<open>@toString\<close> puts a string in its place, the others raise the same \<open>TypeError\<close>.
\<close>

lemma inherited_members_are_called:
  "applyDirectivesToSelectionSet
     (SelectionSet [Field ''author'' [Directive (Some ''constructor'') []] None])
     Map.empty skipAndInclude
   = Inr (SelectionSet [Field ''author'' [Directive (Some ''constructor'') []] None])
   \<and> applyDirectivesToSelectionSet
     (SelectionSet [Field ''author'' [Directive (Some ''toString'') []] None])
     Map.empty skipAndInclude
   = Inr (SelectionSet [PrimitiveString ''[object Undefined]''])
   \<and> applyDirectivesToSelectionSet
     (SelectionSet [Field ''author'' [Directive (Some ''valueOf'') []] None])
     Map.empty skipAndInclude
   = Inl TypeError"
  by (simp add: rewrite_eval)

section \<open>Recursion into kept selections (claim C3)\<close>

text \<open>
  Claim C3 has every kept selection that nests a selection set rewritten recursively,
  also when it is kept by the override of a removal. The code recurses on the branch of
  line 92 only; the branch of line 103, taken when the last resolver said remove and an
  earlier one said keep, returns \<^verbatim>\<open>currSelection\<close> as it is. With
  \<^verbatim>\<open>author @include(if: true) @skip(if: true) { firstName @skip(if: true) }\<close> the
  nested \<^verbatim>\<open>firstName\<close> stays; with the two directives in the other order it is
  removed.
\<close>

theorem kept_by_override_is_not_recursed:
  "applyDirectivesToSelectionSet
     (SelectionSet [Field ''author''
        [conditional ''include'' (BooleanValue True), conditional ''skip'' (BooleanValue True)]
        (Some (SelectionSet [Field ''firstName'' [conditional ''skip'' (BooleanValue True)] None]))])
     Map.empty skipAndInclude
   = Inr (SelectionSet [Field ''author''
        [conditional ''include'' (BooleanValue True), conditional ''skip'' (BooleanValue True)]
        (Some (SelectionSet [Field ''firstName'' [conditional ''skip'' (BooleanValue True)] None]))])
   \<and> applyDirectivesToSelectionSet
     (SelectionSet [Field ''author''
        [conditional ''skip'' (BooleanValue True), conditional ''include'' (BooleanValue True)]
        (Some (SelectionSet [Field ''firstName'' [conditional ''skip'' (BooleanValue True)] None]))])
     Map.empty skipAndInclude
   = Inr (SelectionSet [Field ''author''
        [conditional ''skip'' (BooleanValue True), conditional ''include'' (BooleanValue True)]
        (Some (SelectionSet []))])"
  by (simp add: rewrite_eval)


section \<open>The order of the survivors (claim C5)\<close>











section \<open>Documents (claims C8 and C10)\<close>

lemma rewriteDefinition_idem:
  "rewriteDefinition d v r = Inr d' \<Longrightarrow>
     \<forall>x \<in> set (selectionSetDirectives (definitionSelectionSet d)). \<not> callsToString r x \<Longrightarrow>
     rewriteDefinition d' v r = Inr d'"
  by (cases d) (auto simp: rewriteDefinition_def idem_aux(1) split: sum.splits)

lemma rewriteDefinition_kind:
  "rewriteDefinition d v r = Inr d' \<Longrightarrow>
     isQueryDefinition d' = isQueryDefinition d \<and> isFragmentDefinition d' = isFragmentDefinition d"
  by (cases d) (auto simp: rewriteDefinition_def split: sum.splits)

lemma mapDefinitions_all2:
  "mapDefinitions ds v r = Inr ds' \<Longrightarrow>
     list_all2 (\<lambda>d d'. rewriteDefinition d v r = Inr d') ds ds'"
  by (induction ds arbitrary: ds') (auto split: sum.splits)

lemma all2_mapDefinitions:
  "list_all2 (\<lambda>d d'. rewriteDefinition d v r = Inr d') ds ds' \<Longrightarrow>
     mapDefinitions ds v r = Inr ds'"
  by (induction ds ds' rule: list_all2_induct) simp_all

lemma applyDirectives_eq:
  "applyDirectives doc vs rs =
     (case getQueryDefinition doc of
        Inl e \<Rightarrow> Inl e
      | Inr queryDef \<Rightarrow>
          (case mapDefinitions (queryDef # getFragmentDefinitions doc)
                  (orEmpty vs)
                  (orEmpty rs) of
             Inl e \<Rightarrow> Inl e
           | Inr defs \<Rightarrow> Inr (Document defs)))"
  by (simp add: applyDirectives_def cloneDeep_def rewriteDefinition_def Let_def
      split: sum.splits)

lemma getQueryDefinition_Inr:
  "getQueryDefinition doc = Inr q \<longleftrightarrow> filter isQueryDefinition (definitions doc) = [q]"
  by (auto simp: getQueryDefinition_def split: list.splits)


lemma fragment_not_query: "isFragmentDefinition d \<Longrightarrow> \<not> isQueryDefinition d"
  by (cases d) simp_all

lemma all2_rewrite_fragments:
  assumes "list_all2 (\<lambda>d d'. rewriteDefinition d v r = Inr d') ds ds'"
      and "\<forall>d \<in> set ds. isFragmentDefinition d"
      and "\<forall>d \<in> set ds. \<forall>x \<in> set (selectionSetDirectives (definitionSelectionSet d)).
             \<not> callsToString r x"
  shows "filter isQueryDefinition ds' = [] \<and> filter isFragmentDefinition ds' = ds'
         \<and> list_all2 (\<lambda>d d'. rewriteDefinition d v r = Inr d') ds' ds'"
  using assms
proof (induction ds ds' rule: list_all2_induct)
  case Nil
  then show ?case by simp
next
  case (Cons d ds d' ds')
  then show ?case
    using rewriteDefinition_kind[of d v r d'] rewriteDefinition_idem[of d v r d']
    by (simp add: fragment_not_query)
qed

lemma applyDirectives_Inr:
  assumes "getQueryDefinition doc = Inr queryDef"
  shows "applyDirectives doc vs rs = Inr doc' \<longleftrightarrow>
     (\<exists>queryDef' defs. doc' = Document (queryDef' # defs)
        \<and> rewriteDefinition queryDef (orEmpty vs)
              (orEmpty rs) = Inr queryDef'
        \<and> list_all2 (\<lambda>d d'. rewriteDefinition d (orEmpty vs)
              (orEmpty rs) = Inr d')
             (getFragmentDefinitions doc) defs)"
  (is "?l \<longleftrightarrow> ?r")
proof
  assume ?l
  then obtain defs where
    m: "mapDefinitions (queryDef # getFragmentDefinitions doc)
          (orEmpty vs)
          (orEmpty rs) = Inr defs"
    and d: "doc' = Document defs"
    using assms by (auto simp: applyDirectives_eq split: sum.splits)
  from mapDefinitions_all2[OF m] d show ?r
    by (cases defs) auto
next
  assume ?r
  then obtain queryDef' defs where d: "doc' = Document (queryDef' # defs)"
    and "list_all2 (\<lambda>d d'. rewriteDefinition d (orEmpty vs)
              (orEmpty rs) = Inr d')
           (queryDef # getFragmentDefinitions doc) (queryDef' # defs)"
    by auto
  from all2_mapDefinitions[OF this(2)] d assms show ?l
    by (simp add: applyDirectives_eq)
qed

text \<open>
  Claim C8, as the code has it. Take a document none of whose directives has line 74 call
  \<^verbatim>\<open>Object.prototype.toString\<close>. When \<^verbatim>\<open>applyDirectives\<close> returns a document for it,
  applying it again with the same variables and registry returns that same document.
\<close>

theorem applyDirectives_idempotent:
  assumes "applyDirectives doc variables directiveResolvers = Inr doc'"
      and "\<forall>d \<in> set (documentDirectives doc). \<not> callsToString (orEmpty directiveResolvers) d"
  shows "applyDirectives doc' variables directiveResolvers = Inr doc'"
proof -
  let ?v = "orEmpty variables"
  let ?r = "orEmpty directiveResolvers"
  have no: "\<forall>x \<in> set (selectionSetDirectives (definitionSelectionSet d)). \<not> callsToString ?r x"
    if "d \<in> set (definitions doc)" for d
    using assms(2) that by (auto simp: documentDirectives_def)
  from assms obtain queryDef where q: "getQueryDefinition doc = Inr queryDef"
    by (auto simp: applyDirectives_eq split: sum.splits)
  then have fq: "filter isQueryDefinition (definitions doc) = [queryDef]"
    by (simp add: getQueryDefinition_Inr)
  have "queryDef \<in> set (filter isQueryDefinition (definitions doc))"
    unfolding fq by simp
  then have isq: "isQueryDefinition queryDef" and inq: "queryDef \<in> set (definitions doc)"
    by simp_all
  from assms obtain queryDef' defs where d: "doc' = Document (queryDef' # defs)"
    and rq: "rewriteDefinition queryDef ?v ?r = Inr queryDef'"
    and rf: "list_all2 (\<lambda>d d'. rewriteDefinition d ?v ?r = Inr d') (getFragmentDefinitions doc) defs"
    unfolding applyDirectives_Inr[OF q] by blast
  have "\<forall>d \<in> set (getFragmentDefinitions doc). isFragmentDefinition d"
    by (simp add: getFragmentDefinitions_def)
  moreover have "\<forall>d \<in> set (getFragmentDefinitions doc).
      \<forall>x \<in> set (selectionSetDirectives (definitionSelectionSet d)). \<not> callsToString ?r x"
    using no by (auto simp: getFragmentDefinitions_def)
  ultimately have fr: "filter isQueryDefinition defs = [] \<and> filter isFragmentDefinition defs = defs
         \<and> list_all2 (\<lambda>d d'. rewriteDefinition d ?v ?r = Inr d') defs defs"
    by (rule all2_rewrite_fragments[OF rf])
  have isq': "isQueryDefinition queryDef'" "\<not> isFragmentDefinition queryDef'"
    using rewriteDefinition_kind[OF rq] isq fragment_not_query by auto
  have q': "getQueryDefinition doc' = Inr queryDef'"
    using d isq' fr by (simp add: getQueryDefinition_Inr)
  have f': "getFragmentDefinitions doc' = defs"
    using d isq' fr by (simp add: getFragmentDefinitions_def)
  show ?thesis
    unfolding applyDirectives_Inr[OF q'] f'
    using d rewriteDefinition_idem[OF rq no[OF inq]] fr by blast
qed


theorem applyDirectives_idempotent_witness:
  "applyDirectives
     (Document [OperationDefinition Query None
        (SelectionSet [Field ''a'' [] None]), FragmentDefinition ''f'' (SelectionSet [])])
     None (Some skipAndInclude)
   = Inr (Document [OperationDefinition Query None
        (SelectionSet [Field ''a'' [] None]), FragmentDefinition ''f'' (SelectionSet [])])"
proof -
  have "applyDirectives
     (Document [FragmentDefinition ''f'' (SelectionSet []), OperationDefinition Query None
        (SelectionSet [Field ''a'' [] None, Field ''b'' [conditional ''skip'' (BooleanValue True)] None])])
     None (Some skipAndInclude)
   = Inr (Document [OperationDefinition Query None
        (SelectionSet [Field ''a'' [] None]), FragmentDefinition ''f'' (SelectionSet [])])"
    by (simp add: rewrite_eval document_eval)
  from applyDirectives_idempotent[OF this] show ?thesis
    by (simp add: documentDirectives_def orEmpty_def callsToString_own skipAndInclude_def)
qed

text \<open>
  Claim C8 as stated has the rewritten document hold no skip or include directive. The
  code removes selections, never directives: a kept selection still carries its
  \<^verbatim>\<open>@include(if: true)\<close>. And it has every document rewritten twice be the document
  rewritten once. For \<^verbatim>\<open>{ author @toString }\<close> the first pass returns a document with
  a string for the selection, on which the second pass raises.
\<close>

theorem directives_are_not_consumed:
  "applyDirectives
     (Document [OperationDefinition Query None
        (SelectionSet [Field ''fortuneCookie'' [conditional ''include'' (BooleanValue True)] None])])
     None (Some skipAndInclude)
   = Inr (Document [OperationDefinition Query None
        (SelectionSet [Field ''fortuneCookie'' [conditional ''include'' (BooleanValue True)] None])])
   \<and> conditional ''include'' (BooleanValue True) \<in> set (documentDirectives
        (Document [OperationDefinition Query None
          (SelectionSet [Field ''fortuneCookie'' [conditional ''include'' (BooleanValue True)] None])]))
   \<and> applyDirectives
     (Document [OperationDefinition Query None
        (SelectionSet [Field ''author'' [Directive (Some ''toString'') []] None])])
     None (Some skipAndInclude)
   = Inr (Document [OperationDefinition Query None
        (SelectionSet [PrimitiveString ''[object Undefined]''])])
   \<and> applyDirectives
     (Document [OperationDefinition Query None
        (SelectionSet [PrimitiveString ''[object Undefined]''])])
     None (Some skipAndInclude)
   = Inl TypeError"
  by (simp add: rewrite_eval document_eval documentDirectives_def)

text \<open>
  Claim C10. For a document with one query operation definition, wherever it stands
  among the definitions, \<^verbatim>\<open>applyDirectives\<close> returns exactly the documents whose
  definitions are the rewritten query definition first, then the rewritten fragment
  definitions in their original order; no other definition of the input appears.
\<close>

theorem applyDirectives_definitions:
  assumes "definitions doc = pre @ queryDef # post"
      and "isQueryDefinition queryDef"
      and "\<forall>d \<in> set (pre @ post). \<not> isQueryDefinition d"
  shows "applyDirectives doc variables directiveResolvers = Inr doc' \<longleftrightarrow>
     (\<exists>queryDef' fragmentDefs'.
        doc' = Document (queryDef' # fragmentDefs')
        \<and> rewriteDefinition queryDef (orEmpty variables) (orEmpty directiveResolvers)
            = Inr queryDef'
        \<and> list_all2
            (\<lambda>d d'. rewriteDefinition d (orEmpty variables) (orEmpty directiveResolvers) = Inr d')
            (filter isFragmentDefinition (pre @ post)) fragmentDefs')"
proof -
  have "filter isQueryDefinition (definitions doc) = [queryDef]"
    using assms by (simp add: filter_empty_conv)
  then have q: "getQueryDefinition doc = Inr queryDef"
    by (simp add: getQueryDefinition_Inr)
  have "getFragmentDefinitions doc = filter isFragmentDefinition (pre @ post)"
    using assms(1,2) fragment_not_query[of queryDef]
    by (auto simp: getFragmentDefinitions_def)
  then show ?thesis
    using applyDirectives_Inr[OF q, of variables directiveResolvers doc'] by simp
qed


theorem applyDirectives_definitions_witness:
  "applyDirectives
     (Document
        [FragmentDefinition ''f'' (SelectionSet [Field ''x'' [conditional ''skip'' (BooleanValue True)] None]),
         OperationDefinition Mutation None (SelectionSet [Field ''m'' [] None]),
         OperationDefinition Query None (SelectionSet [Field ''a'' [] None]),
         FragmentDefinition ''g'' (SelectionSet [])])
     None (Some skipAndInclude)
   = Inr (Document
        [OperationDefinition Query None (SelectionSet [Field ''a'' [] None]),
         FragmentDefinition ''f'' (SelectionSet []),
         FragmentDefinition ''g'' (SelectionSet [])])"
  using applyDirectives_definitions[of
    "Document
        [FragmentDefinition ''f'' (SelectionSet [Field ''x'' [conditional ''skip'' (BooleanValue True)] None]),
         OperationDefinition Mutation None (SelectionSet [Field ''m'' [] None]),
         OperationDefinition Query None (SelectionSet [Field ''a'' [] None]),
         FragmentDefinition ''g'' (SelectionSet [])]"
    "[FragmentDefinition ''f'' (SelectionSet [Field ''x'' [conditional ''skip'' (BooleanValue True)] None]),
         OperationDefinition Mutation None (SelectionSet [Field ''m'' [] None])]"
    "OperationDefinition Query None (SelectionSet [Field ''a'' [] None])"
    "[FragmentDefinition ''g'' (SelectionSet [])]"
    None "Some skipAndInclude"
    "Document
        [OperationDefinition Query None (SelectionSet [Field ''a'' [] None]),
         FragmentDefinition ''f'' (SelectionSet []),
         FragmentDefinition ''g'' (SelectionSet [])]"]
  by (simp add: rewrite_eval orEmpty_def rewriteDefinition_def)



section \<open>Copying, then rewriting in place (claim C6)\<close>

lemma elementRefs_withElementRefs:
  "length copies = length (elementRefs elements) \<Longrightarrow>
     elementRefs (withElementRefs elements copies) = copies"
proof (induction elements arbitrary: copies)
  case Nil
  then show ?case by simp
next
  case (Cons element rest)
  then show ?case by (cases element; cases copies) auto
qed

lemma refsOf_withRefs:
  "length copies = length (refsOf obj) \<Longrightarrow> refsOf (withRefs obj copies) = copies"
proof (cases obj)
  case (FieldObject n ds sso)
  assume "length copies = length (refsOf obj)"
  then show ?thesis using FieldObject
    by (cases sso; cases copies) auto
next
  case (SelectionSetObject elements)
  assume "length copies = length (refsOf obj)"
  then show ?thesis using SelectionSetObject
    by (simp add: elementRefs_withElementRefs)
qed (cases copies; auto; fail)+

lemma elementOf_Pointer: "elementOf r = Some (Pointer x) \<longleftrightarrow> r = Selection x"
  by (cases r) auto

lemma elementRefs_elementOf:
  "elementOf r = Some element \<Longrightarrow> set (elementRefs [element]) \<subseteq> {x. r = Selection x}"
  by (cases r) (auto split: if_splits)

lemma elementRefs_filterIdentity_Cons:
  "set (elementRefs (filterIdentity (ro # rs))) =
     (case ro of Some (Pointer x) \<Rightarrow> {x} | other \<Rightarrow> {}) \<union> set (elementRefs (filterIdentity rs))"
proof (cases ro)
  case None
  then show ?thesis by simp
next
  case (Some element)
  then show ?thesis by (cases element) auto
qed

lemma extends_refl: "wfStore s \<Longrightarrow> closedAbove lo s \<Longrightarrow> extends lo s s"
  by (simp add: extends_def unchangedBelow_def)

lemma extends_trans: "extends lo s s1 \<Longrightarrow> extends lo s1 s2 \<Longrightarrow> extends lo s s2"
  by (auto simp: extends_def unchangedBelow_def)

lemma extends_alloc:
  assumes "wfStore s" "closedAbove lo s" "lo \<le> nextRef s"
      and "\<forall>c \<in> set (refsOf obj). lo \<le> c \<and> c < nextRef s"
  shows "extends lo s (snd (alloc obj s))"
  using assms
  unfolding extends_def alloc_def wfStore_def closedAbove_def unchangedBelow_def
  by (auto simp: less_Suc_eq)

lemma clone_extends:
  "cloneDeepAt fuel s a = Some (res, s') \<Longrightarrow> wfStore s \<Longrightarrow> closedAbove lo s \<Longrightarrow>
     lo \<le> nextRef s \<Longrightarrow>
     extends lo s s' \<and> (\<forall>copy. res = Inr copy \<longrightarrow> lo \<le> copy \<and> copy < nextRef s')"
  "cloneDeepAll fuel s refs = Some (ress, s') \<Longrightarrow> wfStore s \<Longrightarrow> closedAbove lo s \<Longrightarrow>
     lo \<le> nextRef s \<Longrightarrow>
     extends lo s s' \<and>
     (\<forall>copies. ress = Inr copies \<longrightarrow>
        length copies = length refs \<and> (\<forall>c \<in> set copies. lo \<le> c \<and> c < nextRef s'))"
proof (induction fuel s a and fuel s refs arbitrary: res s' and ress s'
       rule: cloneDeepAt_cloneDeepAll.induct)
  case (1 s a)
  then show ?case by simp
next
  case (2 fuel s a)
  show ?case
  proof (cases "heap s a")
    case None
    then show ?thesis using "2.prems" by (auto simp: extends_refl)
  next
    case (Some obj)
    show ?thesis
    proof (cases "cloneDeepAll fuel s (refsOf obj)")
      case None
      then show ?thesis using "2.prems" Some by simp
    next
      case (Some r1)
      obtain ress s1 where r1: "r1 = (ress, s1)" by (cases r1)
      note ih = "2.IH"[OF \<open>heap s a = Some obj\<close> Some[unfolded r1] "2.prems"(2,3,4)]
      show ?thesis
      proof (cases ress)
        case (Inl e)
        then show ?thesis using "2.prems"(1) \<open>heap s a = Some obj\<close> Some r1 ih by auto
      next
        case (Inr copies)
        have len: "length copies = length (refsOf obj)"
          and rng: "\<forall>c \<in> set copies. lo \<le> c \<and> c < nextRef s1"
          using ih Inr by auto
        have e1: "extends lo s s1" using ih by simp
        then have w1: "wfStore s1" "closedAbove lo s1" "lo \<le> nextRef s1"
          using "2.prems"(4) by (auto simp: extends_def)
        have e2: "extends lo s1 (snd (alloc (withRefs obj copies) s1))"
          using w1 rng by (intro extends_alloc) (simp_all add: refsOf_withRefs[OF len])
        have res: "res = Inr (nextRef s1)" "s' = snd (alloc (withRefs obj copies) s1)"
          using "2.prems"(1) \<open>heap s a = Some obj\<close> Some r1 Inr
          by (auto simp: alloc_def)
        show ?thesis
          using extends_trans[OF e1 e2] res w1(3) by (auto simp: alloc_def)
      qed
    qed
  qed
next
  case (3 fuel s)
  then show ?case by (auto simp: extends_refl)
next
  case (4 fuel s a rest)
  show ?case
  proof (cases "cloneDeepAt fuel s a")
    case None
    then show ?thesis using "4.prems" by simp
  next
    case (Some r1)
    obtain res1 s1 where r1: "r1 = (res1, s1)" by (cases r1)
    note ih1 = "4.IH"(1)[OF Some[unfolded r1] "4.prems"(2,3,4)]
    show ?thesis
    proof (cases res1)
      case (Inl e)
      then show ?thesis using "4.prems"(1) Some r1 ih1 by auto
    next
      case (Inr copy)
      have e1: "extends lo s s1" and c: "lo \<le> copy" "copy < nextRef s1"
        using ih1 Inr by auto
      then have w1: "wfStore s1" "closedAbove lo s1" "lo \<le> nextRef s1"
        using "4.prems"(4) by (auto simp: extends_def)
      show ?thesis
      proof (cases "cloneDeepAll fuel s1 rest")
        case None
        then show ?thesis using "4.prems"(1) Some r1 Inr by simp
      next
        case (Some r2)
        obtain ress2 s2 where r2: "r2 = (ress2, s2)" by (cases r2)
        note ih2 = "4.IH"(2)[OF \<open>cloneDeepAt fuel s a = Some r1\<close>[unfolded r1] refl Inr
                      Some[unfolded r2] w1]
        have e2: "extends lo s1 s2" using ih2 by simp
        then have n2: "nextRef s1 \<le> nextRef s2" by (simp add: extends_def)
        show ?thesis
        proof (cases ress2)
          case (Inl e)
          then show ?thesis
            using "4.prems"(1) \<open>cloneDeepAt fuel s a = Some r1\<close> r1 Inr Some r2
              extends_trans[OF e1 e2]
            by auto
        next
          case (Inr copies)
          then show ?thesis
            using "4.prems"(1) \<open>cloneDeepAt fuel s a = Some r1\<close> r1 \<open>res1 = Inr copy\<close> Some r2
              extends_trans[OF e1 e2] ih2 c n2
            by auto
        qed
      qed
    qed
  qed
qed

lemma inPlace_refl: "closedAbove lo s \<Longrightarrow> inPlace lo s s"
  by (simp add: inPlace_def unchangedBelow_def)

lemma inPlace_trans: "inPlace lo s s1 \<Longrightarrow> inPlace lo s1 s2 \<Longrightarrow> inPlace lo s s2"
  by (auto simp: inPlace_def unchangedBelow_def)

lemma inPlace_writeObject:
  assumes "closedAbove lo s" "lo \<le> a" "\<forall>c \<in> set (refsOf obj). lo \<le> c"
  shows "inPlace lo s (writeObject a obj s)"
  using assms
  unfolding inPlace_def writeObject_def closedAbove_def unchangedBelow_def
  by auto

lemma inPlace_setSelectionSetAt:
  assumes "closedAbove lo s" "lo \<le> sel" "lo \<le> selSet"
  shows "inPlace lo s (setSelectionSetAt sel selSet s)"
proof (cases "heap s sel")
  case None
  then show ?thesis using assms by (simp add: setSelectionSetAt_def inPlace_refl)
next
  case (Some obj)
  then show ?thesis using assms
    by (cases obj) (simp_all add: setSelectionSetAt_def inPlace_refl inPlace_writeObject)
qed

lemma inPlace_setDefinitionSelectionSetAt:
  assumes "closedAbove lo s" "lo \<le> def" "lo \<le> selSet"
  shows "inPlace lo s (setDefinitionSelectionSetAt def selSet s)"
proof (cases "heap s def")
  case None
  then show ?thesis using assms by (simp add: setDefinitionSelectionSetAt_def inPlace_refl)
next
  case (Some obj)
  then show ?thesis using assms
    by (cases obj) (simp_all add: setDefinitionSelectionSetAt_def inPlace_refl inPlace_writeObject)
qed

lemma nestedSelectionSet_refsOf:
  "nestedSelectionSet obj = Some selSet \<Longrightarrow> selSet \<in> set (refsOf obj)"
  by (cases obj) auto

lemma closedAbove_refs:
  "closedAbove lo s \<Longrightarrow> lo \<le> a \<Longrightarrow> heap s a = Some obj \<Longrightarrow> c \<in> set (refsOf obj) \<Longrightarrow> lo \<le> c"
  unfolding closedAbove_def by blast

lemma rewrite_inPlace:
  "applyDirectivesToSelectionSetAt fuel s selSet v r = Some (res, s') \<Longrightarrow>
     closedAbove lo s \<Longrightarrow> lo \<le> selSet \<Longrightarrow>
     inPlace lo s s' \<and> (\<forall>x. res = Inr x \<longrightarrow> x = selSet)"
  "mapSelectionsAt fuel s sels v r = Some (ress, s') \<Longrightarrow>
     closedAbove lo s \<Longrightarrow> \<forall>c \<in> set (elementRefs sels). lo \<le> c \<Longrightarrow>
     inPlace lo s s' \<and>
     (\<forall>mapped. ress = Inr mapped \<longrightarrow>
        set (elementRefs (filterIdentity mapped)) \<subseteq> set (elementRefs sels))"
  "mapCallbackAt fuel s sel v r = Some (reso, s') \<Longrightarrow>
     closedAbove lo s \<Longrightarrow> lo \<le> sel \<Longrightarrow>
     inPlace lo s s' \<and> (\<forall>x. reso = Inr (Some (Pointer x)) \<longrightarrow> x = sel)"
proof (induction fuel s selSet v r and fuel s sels v r and fuel s sel v r
       arbitrary: res s' and ress s' and reso s'
       rule: applyDirectivesToSelectionSetAt_mapSelectionsAt_mapCallbackAt.induct)
  case (1 s selSet v r)
  then show ?case by simp
next
  case (2 fuel s selSet v r)
  show ?case
  proof (cases "\<exists>sels. heap s selSet = Some (SelectionSetObject sels)")
    case False
    then have "res = Inl TypeError" "s' = s"
      using "2.prems"(1) by (auto split: option.splits object.splits)
    then show ?thesis using "2.prems"(2) by (simp add: inPlace_refl)
  next
    case True
    then obtain sels where h: "heap s selSet = Some (SelectionSetObject sels)" by blast
    have ge: "\<forall>c \<in> set (elementRefs sels). lo \<le> c"
      using closedAbove_refs[OF "2.prems"(2,3) h] by simp
    show ?thesis
    proof (cases "mapSelectionsAt fuel s sels v r")
      case None
      then show ?thesis using "2.prems"(1) h by simp
    next
      case (Some r1)
      obtain ress s1 where r1: "r1 = (ress, s1)" by (cases r1)
      note ih = "2.IH"[OF h refl Some[unfolded r1] "2.prems"(2) ge]
      show ?thesis
      proof (cases ress)
        case (Inl e)
        then show ?thesis using "2.prems"(1) h Some r1 ih by auto
      next
        case (Inr mapped)
        have sub: "set (elementRefs (filterIdentity mapped)) \<subseteq> set (elementRefs sels)"
          using ih Inr by simp
        have i1: "inPlace lo s s1" using ih by simp
        then have c1: "closedAbove lo s1" by (simp add: inPlace_def)
        have "inPlace lo s1 (writeObject selSet (SelectionSetObject (filterIdentity mapped)) s1)"
          using c1 "2.prems"(3) sub ge by (intro inPlace_writeObject) auto
        then show ?thesis
          using "2.prems"(1) h Some r1 Inr inPlace_trans[OF i1] by auto
      qed
    qed
  qed
next
  case (3 fuel s v r)
  then show ?case by (auto simp: inPlace_refl)
next
  case (4 fuel s str rest v r)
  then show ?case by (auto simp: inPlace_refl)
next
  case (5 fuel s selection rest v r)
  have gesel: "lo \<le> selection" and gerest: "\<forall>c \<in> set (elementRefs rest). lo \<le> c"
    using "5.prems"(3) by simp_all
  show ?case
  proof (cases "mapCallbackAt fuel s selection v r")
    case None
    then show ?thesis using "5.prems"(1) by simp
  next
    case (Some r1)
    obtain res1 s1 where r1: "r1 = (res1, s1)" by (cases r1)
    note ih1 = "5.IH"(1)[OF Some[unfolded r1] "5.prems"(2) gesel]
    have i1: "inPlace lo s s1" using ih1 by simp
    then have c1: "closedAbove lo s1" by (simp add: inPlace_def)
    show ?thesis
    proof (cases res1)
      case (Inl e)
      then show ?thesis using "5.prems"(1) Some r1 i1 by auto
    next
      case (Inr ro)
      have ro: "\<forall>x. ro = Some (Pointer x) \<longrightarrow> x = selection" using ih1 Inr by simp
      show ?thesis
      proof (cases "mapSelectionsAt fuel s1 rest v r")
        case None
        then show ?thesis using "5.prems"(1) Some r1 Inr by simp
      next
        case (Some r2)
        obtain ress2 s2 where r2: "r2 = (ress2, s2)" by (cases r2)
        note ih2 = "5.IH"(2)[OF \<open>mapCallbackAt fuel s selection v r = Some r1\<close>[unfolded r1]
                      refl Inr Some[unfolded r2] c1 gerest]
        have i2: "inPlace lo s1 s2" using ih2 by simp
        show ?thesis
        proof (cases ress2)
          case (Inl e)
          then show ?thesis
            using "5.prems"(1) \<open>mapCallbackAt fuel s selection v r = Some r1\<close> r1 Inr Some r2
              inPlace_trans[OF i1 i2]
            by auto
        next
          case (Inr rs)
          have "set (elementRefs (filterIdentity rs)) \<subseteq> set (elementRefs rest)"
            using ih2 Inr by simp
          then have "set (elementRefs (filterIdentity (ro # rs)))
                       \<subseteq> set (elementRefs (Pointer selection # rest))"
            unfolding elementRefs_filterIdentity_Cons using ro
            by (auto split: option.splits element.splits)
          then show ?thesis
            using "5.prems"(1) \<open>mapCallbackAt fuel s selection v r = Some r1\<close> r1
              \<open>res1 = Inr ro\<close> Some r2 Inr inPlace_trans[OF i1 i2]
            by auto
        qed
      qed
    qed
  qed
next
  case (6 fuel s selection v r)
  note prem = "6.prems"(1)[unfolded mapCallbackAt.simps[of fuel s selection v r]]
  show ?case
  proof (cases "heap s selection")
    case None
    then show ?thesis using prem "6.prems"(2) by (auto simp: inPlace_refl)
  next
    case (Some obj)
    show ?thesis
    proof (cases "objectDirectives obj")
      case None
      then show ?thesis using prem Some "6.prems"(2) by (auto simp: inPlace_refl)
    next
      case (Some dirs)
      show ?thesis
      proof (cases "runDirectives selection dirs v r")
        case (Inl e)
        then show ?thesis using prem \<open>heap s selection = Some obj\<close> Some "6.prems"(2)
          by (auto simp: inPlace_refl)
      next
        case (Inr st)
        note so = runDirectives_sameObject[OF Inr, unfolded sameObject_def]
        have el: "elementOf (newSelection st) = Some (Pointer x) \<Longrightarrow> x = selection" for x
          using so by (simp add: elementOf_Pointer)
        show ?thesis
        proof (cases "newSelection st = Undefined")
          case True
          then show ?thesis
            using prem \<open>heap s selection = Some obj\<close> Some Inr so "6.prems"(2)
            by (auto simp: inPlace_refl split: if_splits)
        next
          case False
          show ?thesis
          proof (cases "nestedSelectionSet obj")
            case None
            then show ?thesis
              using prem \<open>heap s selection = Some obj\<close> \<open>objectDirectives obj = Some dirs\<close>
                Inr False el "6.prems"(2)
              by (auto simp: inPlace_refl)
          next
            case (Some selSet)
            have ge: "lo \<le> selSet"
              using closedAbove_refs[OF "6.prems"(2,3) \<open>heap s selection = Some obj\<close>
                      nestedSelectionSet_refsOf[OF Some]] .
            show ?thesis
            proof (cases "applyDirectivesToSelectionSetAt fuel s selSet v r")
              case None
              then show ?thesis
                using prem \<open>heap s selection = Some obj\<close> \<open>objectDirectives obj = Some dirs\<close>
                  Inr False Some
                by simp
            next
              case (Some r1)
              obtain res1 s1 where r1: "r1 = (res1, s1)" by (cases r1)
              note ih = "6.IH"[OF \<open>heap s selection = Some obj\<close>
                          \<open>objectDirectives obj = Some dirs\<close> Inr
                          False \<open>nestedSelectionSet obj = Some selSet\<close>
                          Some[unfolded r1] "6.prems"(2) ge]
              have i1: "inPlace lo s s1" using ih by simp
              then have c1: "closedAbove lo s1" by (simp add: inPlace_def)
              show ?thesis
              proof (cases res1)
                case (Inl e)
                then show ?thesis
                  using prem \<open>heap s selection = Some obj\<close> \<open>objectDirectives obj = Some dirs\<close>
                    Inr False \<open>nestedSelectionSet obj = Some selSet\<close>
                    Some r1 i1
                  by auto
              next
                case (Inr selSet')
                then have "selSet' = selSet" using ih by simp
                then have "inPlace lo s1 (setSelectionSetAt selection selSet' s1)"
                  using c1 "6.prems"(3) ge by (intro inPlace_setSelectionSetAt) simp_all
                then show ?thesis
                  using prem \<open>heap s selection = Some obj\<close> \<open>objectDirectives obj = Some dirs\<close>
                    \<open>runDirectives selection dirs v r = Inr st\<close>
                    False \<open>nestedSelectionSet obj = Some selSet\<close>
                    Some r1 Inr el inPlace_trans[OF i1]
                  by auto
              qed
            qed
          qed
        qed
      qed
    qed
  qed
qed

lemma definitionSelectionSetOf_refsOf:
  "definitionSelectionSetOf obj = Some selSet \<Longrightarrow> selSet \<in> set (refsOf obj)"
  by (cases obj) auto

lemma rewriteDefinitionAt_inPlace:
  assumes "rewriteDefinitionAt fuel s def v r = Some (res, s')"
      and "closedAbove lo s" "lo \<le> def"
  shows "inPlace lo s s' \<and> (\<forall>x. res = Inr x \<longrightarrow> x = def)"
proof (cases "Option.bind (heap s def) definitionSelectionSetOf")
  case None
  then show ?thesis using assms by (auto simp: rewriteDefinitionAt_def inPlace_refl)
next
  case (Some selSet)
  then obtain obj where obj: "heap s def = Some obj" "definitionSelectionSetOf obj = Some selSet"
    by (cases "heap s def") auto
  have ge: "lo \<le> selSet"
    using closedAbove_refs[OF assms(2,3) obj(1) definitionSelectionSetOf_refsOf[OF obj(2)]] .
  show ?thesis
  proof (cases "applyDirectivesToSelectionSetAt fuel s selSet v r")
    case None
    then show ?thesis using assms(1) Some by (simp add: rewriteDefinitionAt_def)
  next
    case (Some r1)
    obtain res1 s1 where r1: "r1 = (res1, s1)" by (cases r1)
    note ip = rewrite_inPlace(1)[OF Some[unfolded r1] assms(2) ge]
    then have i1: "inPlace lo s s1" and c1: "closedAbove lo s1" by (simp_all add: inPlace_def)
    show ?thesis
    proof (cases res1)
      case (Inl e)
      then show ?thesis
        using assms(1) \<open>Option.bind (heap s def) definitionSelectionSetOf = Some selSet\<close> Some r1 i1
        by (auto simp: rewriteDefinitionAt_def)
    next
      case (Inr selSet')
      then have "selSet' = selSet" using ip by simp
      then have "inPlace lo s1 (setDefinitionSelectionSetAt def selSet' s1)"
        using c1 assms(3) ge by (intro inPlace_setDefinitionSelectionSetAt) simp_all
      then show ?thesis
        using assms(1) \<open>Option.bind (heap s def) definitionSelectionSetOf = Some selSet\<close> Some r1
          Inr inPlace_trans[OF i1]
        by (auto simp: rewriteDefinitionAt_def)
    qed
  qed
qed

lemma mapDefinitionsAt_inPlace:
  "mapDefinitionsAt fuel s defs v r = Some (res, s') \<Longrightarrow> closedAbove lo s \<Longrightarrow>
     \<forall>c \<in> set defs. lo \<le> c \<Longrightarrow>
     inPlace lo s s' \<and> (\<forall>defs'. res = Inr defs' \<longrightarrow> set defs' \<subseteq> set defs)"
proof (induction defs arbitrary: s res s')
  case Nil
  then show ?case by (auto simp: inPlace_refl)
next
  case (Cons d rest)
  show ?case
  proof (cases "rewriteDefinitionAt fuel s d v r")
    case None
    then show ?thesis using Cons.prems(1) by simp
  next
    case (Some r1)
    obtain res1 s1 where r1: "r1 = (res1, s1)" by (cases r1)
    have ip: "inPlace lo s s1 \<and> (\<forall>x. res1 = Inr x \<longrightarrow> x = d)"
      using rewriteDefinitionAt_inPlace[OF Some[unfolded r1] Cons.prems(2)] Cons.prems(3) by simp
    then have i1: "inPlace lo s s1" and c1: "closedAbove lo s1" by (simp_all add: inPlace_def)
    show ?thesis
    proof (cases res1)
      case (Inl e)
      then show ?thesis using Cons.prems(1) Some r1 i1 by auto
    next
      case (Inr d')
      then have d': "d' = d" using ip by simp
      show ?thesis
      proof (cases "mapDefinitionsAt fuel s1 rest v r")
        case None
        then show ?thesis using Cons.prems(1) Some r1 Inr by simp
      next
        case (Some r2)
        obtain res2 s2 where r2: "r2 = (res2, s2)" by (cases r2)
        have ih: "inPlace lo s1 s2 \<and> (\<forall>defs'. res2 = Inr defs' \<longrightarrow> set defs' \<subseteq> set rest)"
          using Cons.IH[OF Some[unfolded r2] c1] Cons.prems(3) by simp
        then have i2: "inPlace lo s1 s2" by simp
        show ?thesis
          using Cons.prems(1) \<open>rewriteDefinitionAt fuel s d v r = Some r1\<close> r1 Inr Some r2 d' ih
            inPlace_trans[OF i1 i2]
          by (cases res2) auto
      qed
    qed
  qed
qed

lemma wfStore_closedAbove: "wfStore s \<Longrightarrow> closedAbove (nextRef s) s"
  unfolding wfStore_def closedAbove_def by fastforce

lemma getFragmentDefinitionsAt_refs:
  "getFragmentDefinitionsAt s doc = Inr defs \<Longrightarrow>
     \<exists>obj. heap s doc = Some obj \<and> set defs \<subseteq> set (refsOf obj)"
  by (auto simp: getFragmentDefinitionsAt_def split: option.splits object.splits)

lemma getQueryDefinitionAt_refs:
  "getQueryDefinitionAt s doc = Inr queryDef \<Longrightarrow>
     \<exists>obj. heap s doc = Some obj \<and> queryDef \<in> set (refsOf obj)"
proof -
  assume a: "getQueryDefinitionAt s doc = Inr queryDef"
  then obtain defs where h: "heap s doc = Some (DocumentObject defs)"
    and f: "filter (\<lambda>d. isQueryDefinitionObject (heap s d)) defs = [queryDef]"
    by (auto simp: getQueryDefinitionAt_def split: option.splits object.splits list.splits)
  from f have "queryDef \<in> set (filter (\<lambda>d. isQueryDefinitionObject (heap s d)) defs)" by simp
  then show ?thesis using h by auto
qed

lemma applyDirectivesAt_unchangedBelow:
  assumes "wfStore s" and "applyDirectivesAt fuel s doc vs rs = Some (res, s')"
  shows "unchangedBelow (nextRef s) s s'"
proof -
  let ?lo = "nextRef s"
  let ?v = "orEmpty vs" and ?r = "orEmpty rs"
  note run = assms(2)[unfolded applyDirectivesAt_def Let_def]
  have c0: "closedAbove ?lo s" using assms(1) by (rule wfStore_closedAbove)
  have refl0: "unchangedBelow ?lo s s" by (simp add: unchangedBelow_def)
  show ?thesis
  proof (cases "cloneDeepAt fuel s doc")
    case None
    then show ?thesis using run by simp
  next
    case (Some r1)
    obtain res1 s1 where r1: "r1 = (res1, s1)" by (cases r1)
    note cl = clone_extends(1)[OF Some[unfolded r1] assms(1) c0 order_refl]
    then have u1: "unchangedBelow ?lo s s1" and c1: "closedAbove ?lo s1"
      by (simp_all add: extends_def)
    have step: "unchangedBelow ?lo s s2" if "inPlace ?lo s1 s2" for s2
      using u1 that by (auto simp: inPlace_def unchangedBelow_def)
    show ?thesis
    proof (cases res1)
      case (Inl e)
      then show ?thesis using run Some r1 u1 by auto
    next
      case (Inr newDoc)
      then have nd: "?lo \<le> newDoc" using cl by simp
      show ?thesis
      proof (cases "getFragmentDefinitionsAt s1 newDoc")
        case (Inl e)
        then show ?thesis using run Some r1 \<open>res1 = Inr newDoc\<close> u1 by auto
      next
        case (Inr fragmentDefs)
        have fr: "\<forall>c \<in> set fragmentDefs. ?lo \<le> c"
          using getFragmentDefinitionsAt_refs[OF Inr] closedAbove_refs[OF c1 nd] by blast
        show ?thesis
        proof (cases "getQueryDefinitionAt s1 newDoc")
          case (Inl e)
          then show ?thesis
            using run Some r1 \<open>res1 = Inr newDoc\<close> Inr u1 by auto
        next
          case (Inr queryDef)
          have q: "?lo \<le> queryDef"
            using getQueryDefinitionAt_refs[OF Inr] closedAbove_refs[OF c1 nd] by blast
          show ?thesis
          proof (cases "rewriteDefinitionAt fuel s1 queryDef ?v ?r")
            case None
            then show ?thesis
              using run \<open>cloneDeepAt fuel s doc = Some r1\<close> r1 \<open>res1 = Inr newDoc\<close>
                \<open>getFragmentDefinitionsAt s1 newDoc = Inr fragmentDefs\<close> Inr
              by simp
          next
            case (Some r2)
            obtain res2 s2 where r2: "r2 = (res2, s2)" by (cases r2)
            note ip2 = rewriteDefinitionAt_inPlace[OF Some[unfolded r2] c1 q]
            then have i2: "inPlace ?lo s1 s2" and c2: "closedAbove ?lo s2"
              by (simp_all add: inPlace_def)
            show ?thesis
            proof (cases res2)
              case (Inl e)
              then show ?thesis
                using run \<open>cloneDeepAt fuel s doc = Some r1\<close> r1 \<open>res1 = Inr newDoc\<close>
                  \<open>getFragmentDefinitionsAt s1 newDoc = Inr fragmentDefs\<close>
                  \<open>getQueryDefinitionAt s1 newDoc = Inr queryDef\<close> Some r2 step[OF i2]
                by auto
            next
              case (Inr queryDef')
              then have q': "queryDef' = queryDef" using ip2 by simp
              show ?thesis
              proof (cases "mapDefinitionsAt fuel s2 fragmentDefs ?v ?r")
                case None
                then show ?thesis
                  using run \<open>cloneDeepAt fuel s doc = Some r1\<close> r1 \<open>res1 = Inr newDoc\<close>
                    \<open>getFragmentDefinitionsAt s1 newDoc = Inr fragmentDefs\<close>
                    \<open>getQueryDefinitionAt s1 newDoc = Inr queryDef\<close>
                    \<open>rewriteDefinitionAt fuel s1 queryDef ?v ?r = Some r2\<close> r2 Inr
                  by simp
              next
                case (Some r3)
                obtain res3 s3 where r3: "r3 = (res3, s3)" by (cases r3)
                note ip3 = mapDefinitionsAt_inPlace[OF Some[unfolded r3] c2 fr]
                then have i3: "inPlace ?lo s2 s3" and c3: "closedAbove ?lo s3"
                  by (simp_all add: inPlace_def)
                note i13 = inPlace_trans[OF i2 i3]
                show ?thesis
                proof (cases res3)
                  case (Inl e)
                  then show ?thesis
                    using run \<open>cloneDeepAt fuel s doc = Some r1\<close> r1 \<open>res1 = Inr newDoc\<close>
                      \<open>getFragmentDefinitionsAt s1 newDoc = Inr fragmentDefs\<close>
                      \<open>getQueryDefinitionAt s1 newDoc = Inr queryDef\<close>
                      \<open>rewriteDefinitionAt fuel s1 queryDef ?v ?r = Some r2\<close> r2
                      \<open>res2 = Inr queryDef'\<close> Some r3 step[OF i13]
                    by auto
                next
                  case (Inr defs)
                  then have "set defs \<subseteq> set fragmentDefs" using ip3 by simp
                  then have "inPlace ?lo s3 (writeObject newDoc (DocumentObject (queryDef' # defs)) s3)"
                    using c3 nd q q' fr by (intro inPlace_writeObject) auto
                  from step[OF inPlace_trans[OF i13 this]] show ?thesis
                    using run \<open>cloneDeepAt fuel s doc = Some r1\<close> r1 \<open>res1 = Inr newDoc\<close>
                      \<open>getFragmentDefinitionsAt s1 newDoc = Inr fragmentDefs\<close>
                      \<open>getQueryDefinitionAt s1 newDoc = Inr queryDef\<close>
                      \<open>rewriteDefinitionAt fuel s1 queryDef ?v ?r = Some r2\<close> r2
                      \<open>res2 = Inr queryDef'\<close> Some r3 Inr
                    by auto
                qed
              qed
            qed
          qed
        qed
      qed
    qed
  qed
qed

text \<open>With fuel for the depth of the document, every function returns.\<close>

lemma boundedDepth_Suc: "boundedDepth n s a \<Longrightarrow> boundedDepth (Suc n) s a"
proof (induction n arbitrary: a)
  case 0
  then show ?case by simp
next
  case (Suc n)
  show ?case
  proof (cases "heap s a")
    case None
    then show ?thesis by simp
  next
    case (Some obj)
    then have "\<forall>c \<in> set (refsOf obj). boundedDepth n s c" using Suc.prems by simp
    then have "\<forall>c \<in> set (refsOf obj). boundedDepth (Suc n) s c" using Suc.IH by blast
    then show ?thesis using Some by (simp del: boundedDepth.simps add: boundedDepth.simps(2)[of "Suc n"])
  qed
qed

lemma boundedDepth_child:
  assumes "boundedDepth n s a" "heap s a = Some obj" "c \<in> set (refsOf obj)"
  shows "boundedDepth n s c"
proof (cases n)
  case 0
  then show ?thesis using assms by simp
next
  case (Suc m)
  then have "boundedDepth m s c" using assms by simp
  then show ?thesis unfolding Suc by (rule boundedDepth_Suc)
qed

lemma boundedDepth_unchanged:
  assumes "unchangedBelow lo s s'" "wfStore s" "nextRef s \<le> lo"
  shows "a < nextRef s \<Longrightarrow> boundedDepth n s a \<Longrightarrow> boundedDepth n s' a"
proof (induction n arbitrary: a)
  case 0
  then show ?case by simp
next
  case (Suc n)
  have same: "heap s' a = heap s a"
    using assms(1,3) Suc.prems(1) by (simp add: unchangedBelow_def)
  show ?case
  proof (cases "heap s a")
    case None
    then show ?thesis using same by simp
  next
    case (Some obj)
    have "boundedDepth n s' c" if "c \<in> set (refsOf obj)" for c
    proof -
      have "c < nextRef s" using assms(2) Some that unfolding wfStore_def by blast
      moreover have "boundedDepth n s c" using Suc.prems(2) Some that by simp
      ultimately show ?thesis by (rule Suc.IH)
    qed
    then show ?thesis using same Some by simp
  qed
qed

lemma extends_boundedDepth:
  "extends lo s s' \<Longrightarrow> wfStore s \<Longrightarrow> a < nextRef s \<Longrightarrow> boundedDepth n s a \<Longrightarrow>
     boundedDepth n s' a"
  by (rule boundedDepth_unchanged[where lo = "nextRef s"]) (simp_all add: extends_def)

lemma clone_total:
  "wfStore s \<Longrightarrow> boundedDepth fuel s a \<Longrightarrow>
     \<exists>res s'. cloneDeepAt fuel s a = Some (res, s') \<and>
       (\<forall>copy. res = Inr copy \<longrightarrow> boundedDepth fuel s' copy)"
  "wfStore s \<Longrightarrow> \<forall>c \<in> set refs. c < nextRef s \<and> boundedDepth fuel s c \<Longrightarrow>
     \<exists>ress s'. cloneDeepAll fuel s refs = Some (ress, s') \<and>
       (\<forall>copies. ress = Inr copies \<longrightarrow> (\<forall>c \<in> set copies. boundedDepth fuel s' c))"
proof (induction fuel s a and fuel s refs rule: cloneDeepAt_cloneDeepAll.induct)
  case (1 s a)
  then show ?case by simp
next
  case (2 fuel s a)
  show ?case
  proof (cases "heap s a")
    case None
    then show ?thesis by simp
  next
    case (Some obj)
    have kids: "\<forall>c \<in> set (refsOf obj). c < nextRef s \<and> boundedDepth fuel s c"
      using "2.prems" Some unfolding wfStore_def by auto
    from "2.IH"[OF Some "2.prems"(1) kids] obtain ress s1 where
      all: "cloneDeepAll fuel s (refsOf obj) = Some (ress, s1)"
      and bd: "\<forall>copies. ress = Inr copies \<longrightarrow> (\<forall>c \<in> set copies. boundedDepth fuel s1 c)"
      by blast
    note ext = clone_extends(2)[OF all "2.prems"(1) wfStore_closedAbove[OF "2.prems"(1)] order_refl]
    show ?thesis
    proof (cases ress)
      case (Inl e)
      then show ?thesis using Some all by simp
    next
      case (Inr copies)
      let ?s2 = "snd (alloc (withRefs obj copies) s1)"
      have w1: "wfStore s1" using ext by (simp add: extends_def)
      have len: "length copies = length (refsOf obj)" using ext Inr by simp
      have lt: "\<forall>c \<in> set copies. c < nextRef s1" using ext Inr by simp
      have u: "unchangedBelow (nextRef s1) s1 ?s2"
        by (simp add: unchangedBelow_def alloc_def)
      have "boundedDepth fuel ?s2 c" if "c \<in> set copies" for c
        using boundedDepth_unchanged[OF u w1 order_refl, of c fuel] lt bd Inr that by simp
      then have "boundedDepth (Suc fuel) ?s2 (nextRef s1)"
        by (simp add: alloc_def refsOf_withRefs[OF len])
      then show ?thesis using Some all Inr by (simp add: alloc_def)
    qed
  qed
next
  case (3 fuel s)
  then show ?case by simp
next
  case (4 fuel s a rest)
  from "4.IH"(1)[OF "4.prems"(1)] "4.prems"(2) obtain res1 s1 where
    one: "cloneDeepAt fuel s a = Some (res1, s1)"
    and bd1: "\<forall>copy. res1 = Inr copy \<longrightarrow> boundedDepth fuel s1 copy"
    by auto
  note ext1 = clone_extends(1)[OF one "4.prems"(1) wfStore_closedAbove[OF "4.prems"(1)] order_refl]
  then have e1: "extends (nextRef s) s s1" and w1: "wfStore s1" by (simp_all add: extends_def)
  show ?case
  proof (cases res1)
    case (Inl e)
    then show ?thesis using one by simp
  next
    case (Inr copy)
    have rest: "\<forall>c \<in> set rest. c < nextRef s1 \<and> boundedDepth fuel s1 c"
    proof
      fix c assume c: "c \<in> set rest"
      then have "c < nextRef s" "boundedDepth fuel s c" using "4.prems"(2) by auto
      moreover have "nextRef s \<le> nextRef s1" using e1 by (simp add: extends_def)
      ultimately show "c < nextRef s1 \<and> boundedDepth fuel s1 c"
        using extends_boundedDepth[OF e1 "4.prems"(1)] by auto
    qed
    from "4.IH"(2)[OF one refl Inr w1 rest] obtain ress2 s2 where
      two: "cloneDeepAll fuel s1 rest = Some (ress2, s2)"
      and bd2: "\<forall>copies. ress2 = Inr copies \<longrightarrow> (\<forall>c \<in> set copies. boundedDepth fuel s2 c)"
      by blast
    note ext2 = clone_extends(2)[OF two w1 wfStore_closedAbove[OF w1] order_refl]
    then have e2: "extends (nextRef s1) s1 s2" by simp
    have "copy < nextRef s1" using ext1 Inr by simp
    then have "boundedDepth fuel s2 copy"
      using extends_boundedDepth[OF e2 w1] bd1 Inr by simp
    then show ?thesis using one Inr two bd2 by (cases ress2) auto
  qed
qed

lemma shrinks_refl: "shrinks s s"
  by (simp add: shrinks_def)

lemma shrinks_trans:
  assumes "shrinks s s1" "shrinks s1 s2"
  shows "shrinks s s2"
  unfolding shrinks_def
proof
  fix a
  from assms(1) have 1: "heap s1 a = heap s a \<or>
        (\<exists>obj obj'. heap s a = Some obj \<and> heap s1 a = Some obj'
           \<and> set (refsOf obj') \<subseteq> set (refsOf obj))"
    unfolding shrinks_def by blast
  from assms(2) have 2: "heap s2 a = heap s1 a \<or>
        (\<exists>obj obj'. heap s1 a = Some obj \<and> heap s2 a = Some obj'
           \<and> set (refsOf obj') \<subseteq> set (refsOf obj))"
    unfolding shrinks_def by blast
  from 1 2 show "heap s2 a = heap s a \<or>
        (\<exists>obj obj'. heap s a = Some obj \<and> heap s2 a = Some obj'
           \<and> set (refsOf obj') \<subseteq> set (refsOf obj))"
    by (elim disjE exE conjE) (simp_all, blast)
qed

lemma shrinks_writeObject:
  assumes "heap s a = Some obj" "set (refsOf obj') \<subseteq> set (refsOf obj)"
  shows "shrinks s (writeObject a obj' s)"
  using assms unfolding shrinks_def writeObject_def by auto

lemma shrinks_boundedDepth:
  "shrinks s s' \<Longrightarrow> boundedDepth n s a \<Longrightarrow> boundedDepth n s' a"
proof (induction n arbitrary: a)
  case 0
  then show ?case by simp
next
  case (Suc n)
  from Suc.prems(1) have "heap s' a = heap s a \<or>
        (\<exists>obj obj'. heap s a = Some obj \<and> heap s' a = Some obj'
           \<and> set (refsOf obj') \<subseteq> set (refsOf obj))"
    unfolding shrinks_def by blast
  then show ?case
  proof
    assume same: "heap s' a = heap s a"
    show ?thesis
    proof (cases "heap s a")
      case None
      then show ?thesis using same by simp
    next
      case (Some obj)
      then have "\<forall>c \<in> set (refsOf obj). boundedDepth n s' c"
        using Suc.prems Suc.IH by auto
      then show ?thesis using same Some by simp
    qed
  next
    assume "\<exists>obj obj'. heap s a = Some obj \<and> heap s' a = Some obj'
           \<and> set (refsOf obj') \<subseteq> set (refsOf obj)"
    then obtain obj obj' where o: "heap s a = Some obj" "heap s' a = Some obj'"
      "set (refsOf obj') \<subseteq> set (refsOf obj)" by blast
    then have "\<forall>c \<in> set (refsOf obj'). boundedDepth n s' c"
      using Suc.prems Suc.IH by auto
    then show ?thesis using o by simp
  qed
qed

lemma shrinks_setSelectionSetAt:
  assumes "heap s sel = Some obj" "selSet \<in> set (refsOf obj)" "shrinks s s1"
  shows "shrinks s (setSelectionSetAt sel selSet s1)"
proof -
  show ?thesis
  proof (cases "heap s1 sel")
    case None
    then show ?thesis using assms(3) by (simp add: setSelectionSetAt_def)
  next
    case (Some obj1)
    have direct: "shrinks s (writeObject sel obj' s1)" if "set (refsOf obj') \<subseteq> {selSet}" for obj'
      unfolding shrinks_def
    proof
      fix a
      show "heap (writeObject sel obj' s1) a = heap s a \<or>
        (\<exists>o1 o2. heap s a = Some o1 \<and> heap (writeObject sel obj' s1) a = Some o2
           \<and> set (refsOf o2) \<subseteq> set (refsOf o1))"
      proof (cases "a = sel")
        case True
        then show ?thesis using assms(1,2) that by (auto simp: writeObject_def)
      next
        case False
        then show ?thesis using assms(3) unfolding shrinks_def by (simp add: writeObject_def)
      qed
    qed
    show ?thesis using Some assms(3)
      by (cases obj1) (simp_all add: setSelectionSetAt_def direct)
  qed
qed

lemma shrinks_setDefinitionSelectionSetAt:
  assumes "heap s def = Some obj" "selSet \<in> set (refsOf obj)" "shrinks s s1"
  shows "shrinks s (setDefinitionSelectionSetAt def selSet s1)"
proof (cases "heap s1 def")
  case None
  then show ?thesis using assms(3) by (simp add: setDefinitionSelectionSetAt_def)
next
  case (Some obj1)
  have direct: "shrinks s (writeObject def obj' s1)" if "set (refsOf obj') \<subseteq> {selSet}" for obj'
    unfolding shrinks_def
  proof
    fix a
    show "heap (writeObject def obj' s1) a = heap s a \<or>
      (\<exists>o1 o2. heap s a = Some o1 \<and> heap (writeObject def obj' s1) a = Some o2
         \<and> set (refsOf o2) \<subseteq> set (refsOf o1))"
    proof (cases "a = def")
      case True
      then show ?thesis using assms(1,2) that by (auto simp: writeObject_def)
    next
      case False
      then show ?thesis using assms(3) unfolding shrinks_def by (simp add: writeObject_def)
    qed
  qed
  show ?thesis using Some assms(3)
    by (cases obj1) (simp_all add: setDefinitionSelectionSetAt_def direct)
qed

lemma closedAbove_0: "closedAbove 0 s"
  by (simp add: closedAbove_def)

lemma rewrite_total:
  "boundedDepth fuel s selSet \<Longrightarrow>
     \<exists>res s'. applyDirectivesToSelectionSetAt fuel s selSet v r = Some (res, s') \<and> shrinks s s'"
  "\<forall>c \<in> set (elementRefs sels). boundedDepth fuel s c \<Longrightarrow>
     \<exists>ress s'. mapSelectionsAt fuel s sels v r = Some (ress, s') \<and> shrinks s s'"
  "boundedDepth fuel s sel \<Longrightarrow>
     \<exists>reso s'. mapCallbackAt fuel s sel v r = Some (reso, s') \<and> shrinks s s'"
proof (induction fuel s selSet v r and fuel s sels v r and fuel s sel v r
       rule: applyDirectivesToSelectionSetAt_mapSelectionsAt_mapCallbackAt.induct)
  case (1 s selSet v r)
  then show ?case by simp
next
  case (2 fuel s selSet v r)
  show ?case
  proof (cases "\<exists>sels. heap s selSet = Some (SelectionSetObject sels)")
    case False
    then have "applyDirectivesToSelectionSetAt (Suc fuel) s selSet v r = Some (Inl TypeError, s)"
      by (auto split: option.splits object.splits)
    then show ?thesis using shrinks_refl by blast
  next
    case True
    then obtain sels where h: "heap s selSet = Some (SelectionSetObject sels)" by blast
    have "\<forall>c \<in> set (elementRefs sels). boundedDepth fuel s c" using "2.prems" h by simp
    from "2.IH"[OF h refl this] obtain ress s1 where
      m: "mapSelectionsAt fuel s sels v r = Some (ress, s1)" and sh: "shrinks s s1"
      by blast
    show ?thesis
    proof (cases ress)
      case (Inl e)
      then show ?thesis using h m sh by simp
    next
      case (Inr mapped)
      have "set (elementRefs (filterIdentity mapped)) \<subseteq> set (elementRefs sels)"
        using rewrite_inPlace(2)[OF m closedAbove_0] Inr by simp
      then have "shrinks s (writeObject selSet (SelectionSetObject (filterIdentity mapped)) s1)"
        unfolding shrinks_def writeObject_def
        using sh[unfolded shrinks_def] h by (auto split: if_splits)
      then show ?thesis using h m Inr by simp
    qed
  qed
next
  case (3 fuel s v r)
  then show ?case by (simp add: shrinks_refl)
next
  case (4 fuel s str rest v r)
  then show ?case by (simp add: shrinks_refl)
next
  case (5 fuel s selection rest v r)
  from "5.IH"(1) "5.prems" obtain res1 s1 where
    one: "mapCallbackAt fuel s selection v r = Some (res1, s1)" and sh1: "shrinks s s1"
    by auto
  show ?case
  proof (cases res1)
    case (Inl e)
    then show ?thesis using one sh1 by simp
  next
    case (Inr ro)
    have "\<forall>c \<in> set (elementRefs rest). boundedDepth fuel s1 c"
      using "5.prems" shrinks_boundedDepth[OF sh1] by simp
    from "5.IH"(2)[OF one refl Inr this] obtain ress2 s2 where
      two: "mapSelectionsAt fuel s1 rest v r = Some (ress2, s2)" and sh2: "shrinks s1 s2"
      by blast
    show ?thesis using one Inr two shrinks_trans[OF sh1 sh2] by (cases ress2) auto
  qed
next
  case (6 fuel s selection v r)
  note eq = mapCallbackAt.simps[of fuel s selection v r]
  show ?case
  proof (cases "heap s selection")
    case None
    then show ?thesis using shrinks_refl by (simp add: eq)
  next
    case (Some obj)
    show ?thesis
    proof (cases "objectDirectives obj")
      case None
      then show ?thesis using Some shrinks_refl by (simp add: eq)
    next
      case (Some dirs)
      show ?thesis
      proof (cases "runDirectives selection dirs v r")
        case (Inl e)
        then show ?thesis using \<open>heap s selection = Some obj\<close> Some shrinks_refl
          by (simp add: eq)
      next
        case (Inr st)
        show ?thesis
        proof (cases "newSelection st = Undefined")
          case True
          then show ?thesis
            using \<open>heap s selection = Some obj\<close> Some Inr shrinks_refl by (simp add: eq)
        next
          case False
          show ?thesis
          proof (cases "nestedSelectionSet obj")
            case None
            then show ?thesis
              using \<open>heap s selection = Some obj\<close> \<open>objectDirectives obj = Some dirs\<close>
                Inr False shrinks_refl
              by (simp add: eq)
          next
            case (Some selSet)
            have kid: "selSet \<in> set (refsOf obj)" using Some by (rule nestedSelectionSet_refsOf)
            have "boundedDepth fuel s selSet"
              using boundedDepth_child[OF "6.prems" \<open>heap s selection = Some obj\<close> kid] .
            from "6.IH"[OF \<open>heap s selection = Some obj\<close> \<open>objectDirectives obj = Some dirs\<close>
                    Inr False Some this]
            obtain res1 s1 where
              ap: "applyDirectivesToSelectionSetAt fuel s selSet v r = Some (res1, s1)"
              and sh1: "shrinks s s1" by blast
            show ?thesis
            proof (cases res1)
              case (Inl e)
              then show ?thesis
                using \<open>heap s selection = Some obj\<close> \<open>objectDirectives obj = Some dirs\<close>
                  \<open>runDirectives selection dirs v r = Inr st\<close>
                  False Some ap sh1
                by (simp add: eq)
            next
              case (Inr selSet')
              then have "selSet' = selSet"
                using rewrite_inPlace(1)[OF ap closedAbove_0] by simp
              then have "shrinks s (setSelectionSetAt selection selSet' s1)"
                using shrinks_setSelectionSetAt[OF \<open>heap s selection = Some obj\<close> kid sh1] by simp
              then show ?thesis
                using \<open>heap s selection = Some obj\<close> \<open>objectDirectives obj = Some dirs\<close>
                  \<open>runDirectives selection dirs v r = Inr st\<close>
                  False Some ap Inr
                by (simp add: eq)
            qed
          qed
        qed
      qed
    qed
  qed
qed

lemma rewriteDefinitionAt_total:
  assumes "boundedDepth fuel s def"
  shows "\<exists>res s'. rewriteDefinitionAt fuel s def v r = Some (res, s') \<and> shrinks s s'"
proof (cases "Option.bind (heap s def) definitionSelectionSetOf")
  case None
  then show ?thesis using shrinks_refl by (simp add: rewriteDefinitionAt_def)
next
  case (Some selSet)
  then obtain obj where obj: "heap s def = Some obj" "definitionSelectionSetOf obj = Some selSet"
    by (cases "heap s def") auto
  have kid: "selSet \<in> set (refsOf obj)" using obj(2) by (rule definitionSelectionSetOf_refsOf)
  from rewrite_total(1)[OF boundedDepth_child[OF assms obj(1) kid], of v r]
  obtain res1 s1 where
    ap: "applyDirectivesToSelectionSetAt fuel s selSet v r = Some (res1, s1)"
    and sh1: "shrinks s s1" by blast
  show ?thesis
  proof (cases res1)
    case (Inl e)
    then show ?thesis using Some ap sh1 by (simp add: rewriteDefinitionAt_def)
  next
    case (Inr selSet')
    then have "selSet' = selSet"
      using rewrite_inPlace(1)[OF ap closedAbove_0] by simp
    then have "shrinks s (setDefinitionSelectionSetAt def selSet' s1)"
      using shrinks_setDefinitionSelectionSetAt[OF obj(1) kid sh1] by simp
    then show ?thesis using Some ap Inr by (simp add: rewriteDefinitionAt_def)
  qed
qed

lemma mapDefinitionsAt_total:
  "\<forall>c \<in> set defs. boundedDepth fuel s c \<Longrightarrow>
     \<exists>res s'. mapDefinitionsAt fuel s defs v r = Some (res, s') \<and> shrinks s s'"
proof (induction defs arbitrary: s)
  case Nil
  then show ?case by (simp add: shrinks_refl)
next
  case (Cons d rest)
  from rewriteDefinitionAt_total[of fuel s d v r] Cons.prems obtain res1 s1 where
    one: "rewriteDefinitionAt fuel s d v r = Some (res1, s1)" and sh1: "shrinks s s1"
    by auto
  show ?case
  proof (cases res1)
    case (Inl e)
    then show ?thesis using one sh1 by simp
  next
    case (Inr d')
    have "\<forall>c \<in> set rest. boundedDepth fuel s1 c"
      using Cons.prems shrinks_boundedDepth[OF sh1] by simp
    from Cons.IH[OF this] obtain res2 s2 where
      two: "mapDefinitionsAt fuel s1 rest v r = Some (res2, s2)" and sh2: "shrinks s1 s2"
      by blast
    show ?thesis using one Inr two shrinks_trans[OF sh1 sh2] by (cases res2) auto
  qed
qed

lemma applyDirectivesAt_total:
  assumes "wfStore s" "boundedDepth fuel s doc"
  shows "\<exists>res s'. applyDirectivesAt fuel s doc vs rs = Some (res, s')"
proof -
  let ?v = "orEmpty vs" and ?r = "orEmpty rs"
  from clone_total(1)[OF assms] obtain res1 s1 where
    cl: "cloneDeepAt fuel s doc = Some (res1, s1)"
    and bd: "\<forall>copy. res1 = Inr copy \<longrightarrow> boundedDepth fuel s1 copy" by blast
  show ?thesis
  proof (cases res1)
    case (Inl e)
    then show ?thesis using cl by (simp add: applyDirectivesAt_def)
  next
    case (Inr newDoc)
    then have bdn: "boundedDepth fuel s1 newDoc" using bd by simp
    show ?thesis
    proof (cases "getFragmentDefinitionsAt s1 newDoc")
      case (Inl e)
      then show ?thesis using cl \<open>res1 = Inr newDoc\<close> by (simp add: applyDirectivesAt_def)
    next
      case (Inr fragmentDefs)
      have fr: "\<forall>c \<in> set fragmentDefs. boundedDepth fuel s1 c"
        using getFragmentDefinitionsAt_refs[OF Inr] boundedDepth_child[OF bdn] by blast
      show ?thesis
      proof (cases "getQueryDefinitionAt s1 newDoc")
        case (Inl e)
        then show ?thesis using cl \<open>res1 = Inr newDoc\<close> Inr by (simp add: applyDirectivesAt_def)
      next
        case (Inr queryDef)
        have "boundedDepth fuel s1 queryDef"
          using getQueryDefinitionAt_refs[OF Inr] boundedDepth_child[OF bdn] by blast
        from rewriteDefinitionAt_total[OF this, of ?v ?r] obtain res2 s2 where
          rq: "rewriteDefinitionAt fuel s1 queryDef ?v ?r = Some (res2, s2)"
          and sh2: "shrinks s1 s2" by blast
        show ?thesis
        proof (cases res2)
          case (Inl e)
          then show ?thesis
            using cl \<open>res1 = Inr newDoc\<close>
              \<open>getFragmentDefinitionsAt s1 newDoc = Inr fragmentDefs\<close> Inr rq
            by (simp add: applyDirectivesAt_def)
        next
          case (Inr queryDef')
          have "\<forall>c \<in> set fragmentDefs. boundedDepth fuel s2 c"
            using fr shrinks_boundedDepth[OF sh2] by simp
          from mapDefinitionsAt_total[OF this, of ?v ?r] obtain res3 s3 where
            "mapDefinitionsAt fuel s2 fragmentDefs ?v ?r = Some (res3, s3)" by blast
          then show ?thesis
            using cl \<open>res1 = Inr newDoc\<close>
              \<open>getFragmentDefinitionsAt s1 newDoc = Inr fragmentDefs\<close>
              \<open>getQueryDefinitionAt s1 newDoc = Inr queryDef\<close> rq Inr
            by (cases res3) (simp_all add: applyDirectivesAt_def)
        qed
      qed
    qed
  qed
qed

text \<open>Reading a document back depends on the objects below \<open>nextRef\<close> alone.\<close>

lemma read_unchanged:
  "unchangedBelow (nextRef s) s s' \<Longrightarrow> wfStore s \<Longrightarrow> a < nextRef s \<Longrightarrow>
     readSelectionAt fuel s' a = readSelectionAt fuel s a"
  "unchangedBelow (nextRef s) s s' \<Longrightarrow> wfStore s \<Longrightarrow> b < nextRef s \<Longrightarrow>
     readSelectionSetAt fuel s' b = readSelectionSetAt fuel s b"
  "unchangedBelow (nextRef s) s s' \<Longrightarrow> wfStore s \<Longrightarrow>
     \<forall>c \<in> set (elementRefs refs). c < nextRef s \<Longrightarrow>
     readSelectionsAt fuel s' refs = readSelectionsAt fuel s refs"
proof (induction fuel s a and fuel s b and fuel s refs
       rule: readSelectionAt_readSelectionSetAt_readSelectionsAt.induct)
  case (1 s a)
  then show ?case by simp
next
  case (2 fuel s a)
  have same: "heap s' a = heap s a"
    using "2.prems" by (simp add: unchangedBelow_def)
  show ?case
  proof (cases "heap s a")
    case None
    then show ?thesis using same by simp
  next
    case (Some obj)
    have kids: "\<forall>c \<in> set (refsOf obj). c < nextRef s"
      using "2.prems"(2) Some unfolding wfStore_def by blast
    show ?thesis
    proof (cases obj)
      case (FieldObject n ds sso)
      then show ?thesis using same Some kids "2.IH"(1)[OF Some FieldObject _ "2.prems"(1,2)]
        by (cases sso) auto
    next
      case (InlineFragmentObject ds selSet)
      then show ?thesis
        using same Some kids "2.IH"(2)[OF Some InlineFragmentObject "2.prems"(1,2)]
        by auto
    qed (use same Some in simp_all)
  qed
next
  case (3 s a)
  then show ?case by simp
next
  case (4 fuel s a)
  have same: "heap s' a = heap s a"
    using "4.prems" by (simp add: unchangedBelow_def)
  show ?case
  proof (cases "heap s a")
    case None
    then show ?thesis using same by simp
  next
    case (Some obj)
    have kids: "\<forall>c \<in> set (refsOf obj). c < nextRef s"
      using "4.prems"(2) Some unfolding wfStore_def by blast
    show ?thesis
    proof (cases obj)
      case (SelectionSetObject sels)
      then show ?thesis
        using same Some kids "4.IH"[OF Some SelectionSetObject "4.prems"(1,2)] by auto
    qed (use same Some in simp_all)
  qed
next
  case (5 fuel s)
  then show ?case by simp
next
  case (6 fuel s a rest)
  then show ?case by (auto split: option.splits)
next
  case (7 fuel s str rest)
  then show ?case by auto
qed

lemma readDefinitionAt_unchanged:
  assumes "unchangedBelow (nextRef s) s s'" "wfStore s" "a < nextRef s"
  shows "readDefinitionAt fuel s' a = readDefinitionAt fuel s a"
proof -
  have same: "heap s' a = heap s a"
    using assms by (simp add: unchangedBelow_def)
  show ?thesis
  proof (cases "heap s a")
    case None
    then show ?thesis using same by (simp add: readDefinitionAt_def)
  next
    case (Some obj)
    have kids: "\<forall>c \<in> set (refsOf obj). c < nextRef s"
      using assms(2) Some unfolding wfStore_def by blast
    show ?thesis using same Some kids read_unchanged(2)[OF assms(1,2)]
      by (cases obj) (simp_all add: readDefinitionAt_def)
  qed
qed

lemma readDefinitionsAt_unchanged:
  assumes "unchangedBelow (nextRef s) s s'" "wfStore s"
  shows "\<forall>c \<in> set refs. c < nextRef s \<Longrightarrow>
           readDefinitionsAt fuel s' refs = readDefinitionsAt fuel s refs"
  by (induction refs) (auto simp: readDefinitionAt_unchanged[OF assms] split: option.splits)

lemma readDocumentAt_unchanged:
  assumes "unchangedBelow (nextRef s) s s'" "wfStore s" "a < nextRef s"
  shows "readDocumentAt fuel s' a = readDocumentAt fuel s a"
proof -
  have same: "heap s' a = heap s a"
    using assms by (simp add: unchangedBelow_def)
  show ?thesis
  proof (cases "heap s a")
    case None
    then show ?thesis using same by (simp add: readDocumentAt_def)
  next
    case (Some obj)
    have kids: "\<forall>c \<in> set (refsOf obj). c < nextRef s"
      using assms(2) Some unfolding wfStore_def by blast
    show ?thesis using same Some kids readDefinitionsAt_unchanged[OF assms(1,2)]
      by (cases obj) (simp_all add: readDocumentAt_def)
  qed
qed

text \<open>
  Claim C6. In a well-formed store, whenever \<^verbatim>\<open>applyDirectives\<close> returns, with a
  document or with an error, every object the store held before the call is the same
  object after it; in particular the document read from the caller's reference is the
  document that was there. And for a document nested no deeper than the fuel,
  \<^verbatim>\<open>applyDirectives\<close> does return.
\<close>

theorem applyDirectives_never_mutates_the_document:
  assumes "wfStore s"
  shows "(\<forall>fuel res s'.
            applyDirectivesAt fuel s doc variables directiveResolvers = Some (res, s') \<longrightarrow>
              (\<forall>a obj. heap s a = Some obj \<longrightarrow> heap s' a = Some obj)
              \<and> (\<forall>n. doc \<in> dom (heap s) \<longrightarrow> readDocumentAt n s' doc = readDocumentAt n s doc))
       \<and> (\<forall>fuel. boundedDepth fuel s doc \<longrightarrow>
            (\<exists>res s'. applyDirectivesAt fuel s doc variables directiveResolvers = Some (res, s')))"
proof (intro conjI allI impI)
  fix fuel res s' a obj
  assume "applyDirectivesAt fuel s doc variables directiveResolvers = Some (res, s')"
    and "heap s a = Some obj"
  then show "heap s' a = Some obj"
    using applyDirectivesAt_unchangedBelow[OF assms] assms
    unfolding unchangedBelow_def wfStore_def by metis
next
  fix fuel res s' n
  assume run: "applyDirectivesAt fuel s doc variables directiveResolvers = Some (res, s')"
    and "doc \<in> dom (heap s)"
  then have "doc < nextRef s" using assms unfolding wfStore_def by blast
  then show "readDocumentAt n s' doc = readDocumentAt n s doc"
    using readDocumentAt_unchanged[OF applyDirectivesAt_unchangedBelow[OF assms run] assms]
    by simp
next
  fix fuel
  assume "boundedDepth fuel s doc"
  then show "\<exists>res s'. applyDirectivesAt fuel s doc variables directiveResolvers = Some (res, s')"
    using applyDirectivesAt_total[OF assms] by blast
qed

theorem applyDirectives_never_mutates_the_document_witness:
  "(\<exists>res s'. applyDirectivesAt 6 exampleStore 6 None (Some skipAndInclude) = Some (res, s')
      \<and> readDocumentAt 6 s' 6 = readDocumentAt 6 exampleStore 6)
   \<and> readDocumentAt 6 exampleStore 6 =
       Some (Document [OperationDefinition Query None
         (SelectionSet
            [Field ''author'' [conditional ''skip'' (Variable ''omit'')]
               (Some (SelectionSet [Field ''firstName'' [] None])),
             Field ''name'' [] None])])"
proof -
  have wf: "wfStore exampleStore"
    by (auto simp: wfStore_def exampleStore_def split: if_splits)
  have bd: "boundedDepth 6 exampleStore 6"
    by (simp add: exampleStore_def eval_nat_numeral)
  have dm: "6 \<in> dom (heap exampleStore)"
    by (simp add: exampleStore_def)
  note frame = applyDirectives_never_mutates_the_document[OF wf, of 6 None "Some skipAndInclude"]
  from frame bd obtain res s' where
    run: "applyDirectivesAt 6 exampleStore 6 None (Some skipAndInclude) = Some (res, s')"
    by blast
  with frame dm have "readDocumentAt 6 s' 6 = readDocumentAt 6 exampleStore 6"
    by blast
  moreover have "readDocumentAt 6 exampleStore 6 =
       Some (Document [OperationDefinition Query None
         (SelectionSet
            [Field ''author'' [conditional ''skip'' (Variable ''omit'')]
               (Some (SelectionSet [Field ''firstName'' [] None])),
             Field ''name'' [] None])])"
    by (simp add: exampleStore_def readDocumentAt_def readDefinitionAt_def eval_nat_numeral)
  ultimately show ?thesis using run by blast
qed

section \<open>The rewriter on the store and the rewriter on values\<close>

text \<open>
  On a selection set that is a tree in the store, \<open>applyDirectivesToSelectionSetAt\<close> writes only
  inside the interval of that tree, fails exactly when \<open>applyDirectivesToSelectionSet\<close> fails on
  the value the tree stands for, with the same error, and otherwise returns the reference it
  was given, which then stands for the value \<open>applyDirectivesToSelectionSet\<close> returns. What is
  proved of the rewriter on values is thereby a fact of the rewriter that updates its argument
  in place.
\<close>

lemma owns_lower:
  "ownsSelection s lo a t \<Longrightarrow> lo \<le> a"
  "ownsSelectionSet s lo b ss \<Longrightarrow> lo \<le> b"
  "ownsSelections s lo refs ts \<Longrightarrow> \<forall>c \<in> set (elementRefs refs). lo \<le> c"
proof (induction s lo a t and s lo b ss and s lo refs ts
       rule: ownsSelection_ownsSelectionSet_ownsSelections.induct)
  case (2 s lo a n ds ss)
  then show ?case by fastforce
next
  case (3 s lo a ds ss)
  then show ?case by fastforce
next
  case (8 s lo c cs t ts)
  then show ?case by fastforce
qed auto

lemma owns_frame:
  "\<forall>x. lo \<le> x \<and> x \<le> a \<longrightarrow> heap s' x = heap s x \<Longrightarrow>
     ownsSelection s lo a t \<Longrightarrow> ownsSelection s' lo a t"
  "\<forall>x. lo \<le> x \<and> x \<le> b \<longrightarrow> heap s' x = heap s x \<Longrightarrow>
     ownsSelectionSet s lo b ss \<Longrightarrow> ownsSelectionSet s' lo b ss"
  "\<forall>x. lo \<le> x \<and> x < hi \<longrightarrow> heap s' x = heap s x \<Longrightarrow>
     \<forall>c \<in> set (elementRefs refs). c < hi \<Longrightarrow>
     ownsSelections s lo refs ts \<Longrightarrow> ownsSelections s' lo refs ts"
proof (induction s lo a t and s lo b ss and s lo refs ts arbitrary: and and hi
       rule: ownsSelection_ownsSelectionSet_ownsSelections.induct)
  case (1 s lo a n ds)
  then show ?case by simp
next
  case (2 s lo a n ds ss)
  from "2.prems"(2) obtain b where
    b: "heap s a = Some (FieldObject n ds (Some b))" "b < a" "ownsSelectionSet s lo b ss"
    by auto
  have "lo \<le> a" using owns_lower(2)[OF b(3)] b(2) by simp
  then have "heap s' a = Some (FieldObject n ds (Some b))" using "2.prems"(1) b(1) by simp
  moreover have "ownsSelectionSet s' lo b ss"
    using "2.IH"[OF _ b(3)] "2.prems"(1) b(2) by simp
  ultimately show ?case using b(2) by auto
next
  case (3 s lo a ds ss)
  from "3.prems"(2) obtain b where
    b: "heap s a = Some (InlineFragmentObject ds b)" "b < a" "ownsSelectionSet s lo b ss"
    by auto
  have "lo \<le> a" using owns_lower(2)[OF b(3)] b(2) by simp
  then have "heap s' a = Some (InlineFragmentObject ds b)" using "3.prems"(1) b(1) by simp
  moreover have "ownsSelectionSet s' lo b ss"
    using "3.IH"[OF _ b(3)] "3.prems"(1) b(2) by simp
  ultimately show ?case using b(2) by auto
next
  case (4 s lo a n ds)
  then show ?case by simp
next
  case (6 s lo a sels)
  from "6.prems"(2) obtain refs where
    r: "heap s a = Some (SelectionSetObject refs)" "lo \<le> a"
       "\<forall>c \<in> set (elementRefs refs). c < a" "ownsSelections s lo refs sels"
    by auto
  have "heap s' a = Some (SelectionSetObject refs)" using "6.prems"(1) r(1,2) by simp
  moreover have "ownsSelections s' lo refs sels"
    using "6.IH"[OF _ r(3,4)] "6.prems"(1) by simp
  ultimately show ?case using r(2,3) by auto
next
  case (8 s lo c cs t ts)
  have "ownsSelection s' lo c t" using "8.IH"(1) "8.prems" by simp
  moreover have "\<forall>x. Suc c \<le> x \<and> x < hi \<longrightarrow> heap s' x = heap s x"
    using "8.prems"(1) owns_lower(1)[of s lo c t] "8.prems"(3) by auto
  then have "ownsSelections s' (Suc c) cs ts"
    using "8.IH"(2)[of hi] "8.prems" by simp
  ultimately show ?case by simp
next
  case (9 s lo str cs t ts)
  then show ?case by simp
qed simp_all

lemma owns_mono:
  "lo' \<le> lo \<Longrightarrow> ownsSelection s lo a t \<Longrightarrow> ownsSelection s lo' a t"
  "lo' \<le> lo \<Longrightarrow> ownsSelectionSet s lo b ss \<Longrightarrow> ownsSelectionSet s lo' b ss"
  "lo' \<le> lo \<Longrightarrow> ownsSelections s lo refs ts \<Longrightarrow> ownsSelections s lo' refs ts"
proof (induction s lo a t and s lo b ss and s lo refs ts arbitrary: lo' and lo' and lo'
       rule: ownsSelection_ownsSelectionSet_ownsSelections.induct)
  case (2 s lo a n ds ss)
  then show ?case by fastforce
next
  case (3 s lo a ds ss)
  then show ?case by fastforce
next
  case (6 s lo a sels)
  then show ?case by fastforce
next
  case (8 s lo c cs t ts)
  then show ?case by fastforce
next
  case (9 s lo str cs t ts)
  then show ?case by fastforce
qed auto


lemma owns_node: "ownsSelection s lo c t \<Longrightarrow> t \<noteq> PrimitiveString str"
  by auto

lemma applyDirectivesToSelection_at:
  assumes "\<And>str. t \<noteq> PrimitiveString str"
  shows "applyDirectivesToSelection t v r =
     map_sum id (mapLocals (\<lambda>c. t)) (runDirectives (c::ref) (directives t) v r)"
  unfolding applyDirectivesToSelection_eq[OF assms]
  using runDirectives_natural[of "\<lambda>c. t" c "directives t" v r] by simp

lemma owns_object:
  assumes "ownsSelection s lo c t"
  shows "\<exists>obj. heap s c = Some obj \<and> objectDirectives obj = Some (directives t)
           \<and> (case selectionSetOf t of
                 None \<Rightarrow> nestedSelectionSet obj = None
               | Some ss \<Rightarrow> (\<exists>b. nestedSelectionSet obj = Some b \<and> b < c
                              \<and> ownsSelectionSet s lo b ss))"
proof (cases t)
  case (Field n ds sso)
  then show ?thesis using assms by (cases sso) auto
next
  case (InlineFragment ds ss)
  then show ?thesis using assms by auto
next
  case (FragmentSpread n ds)
  then show ?thesis using assms by auto
next
  case (PrimitiveString str)
  then show ?thesis using assms by simp
qed

lemma owns_setSelectionSetAt:
  assumes "ownsSelection s lo c t" "selectionSetOf t = Some ss"
      and "heap s1 c = heap s c" "heap s c = Some obj" "nestedSelectionSet obj = Some b"
      and "ownsSelectionSet s1 lo b ss'" "b < c"
  shows "ownsSelection (setSelectionSetAt c b s1) lo c (setSelectionSet t ss')"
proof -
  have fr: "ownsSelectionSet (writeObject c obj' s1) lo b ss'" for obj'
  proof (rule owns_frame(2)[of lo b _ s1])
    show "\<forall>x. lo \<le> x \<and> x \<le> b \<longrightarrow> heap (writeObject c obj' s1) x = heap s1 x"
      using assms(7) by (simp add: writeObject_def)
  qed (rule assms(6))
  show ?thesis
  proof (cases t)
    case (Field n ds sso)
    then have t: "t = Field n ds (Some ss)" using assms(2) by simp
    then have o: "obj = FieldObject n ds (Some b)" using assms(1,4,5) by auto
    have w: "setSelectionSetAt c b s1 = writeObject c (FieldObject n ds (Some b)) s1"
      using assms(3,4) o by (simp add: setSelectionSetAt_def)
    have "heap (writeObject c (FieldObject n ds (Some b)) s1) c = Some (FieldObject n ds (Some b))"
      by (simp add: writeObject_def)
    then show ?thesis unfolding w t using fr assms(7) by simp
  next
    case (InlineFragment ds ss0)
    then have o: "obj = InlineFragmentObject ds b" using assms(1,4,5) by auto
    have w: "setSelectionSetAt c b s1 = writeObject c (InlineFragmentObject ds b) s1"
      using assms(3,4) o by (simp add: setSelectionSetAt_def)
    have "heap (writeObject c (InlineFragmentObject ds b) s1) c = Some (InlineFragmentObject ds b)"
      by (simp add: writeObject_def)
    then show ?thesis unfolding w InlineFragment using fr assms(7) by simp
  next
    case (FragmentSpread n ds)
    then show ?thesis using assms(2) by simp
  next
    case (PrimitiveString str)
    then show ?thesis using assms(2) by simp
  qed
qed


lemma heap_setSelectionSetAt_other:
  "x \<noteq> c \<Longrightarrow> heap (setSelectionSetAt c b s) x = heap s x"
  by (simp add: setSelectionSetAt_def writeObject_def split: option.splits object.splits)

lemma rewrite_refines:
  "applyDirectivesToSelectionSetAt fuel s a v r = Some (res, s') \<Longrightarrow>
     ownsSelectionSet s lo a ss \<Longrightarrow>
     (\<forall>x. x < lo \<or> a < x \<longrightarrow> heap s' x = heap s x) \<and>
     (case applyDirectivesToSelectionSet ss v r of
        Inl e \<Rightarrow> res = Inl e
      | Inr ss' \<Rightarrow> res = Inr a \<and> ownsSelectionSet s' lo a ss')"
  "mapSelectionsAt fuel s refs v r = Some (ress, s') \<Longrightarrow>
     ownsSelections s lo refs sels \<Longrightarrow> \<forall>c \<in> set (elementRefs refs). c < hi \<Longrightarrow>
     (\<forall>x. x < lo \<or> hi \<le> x \<longrightarrow> heap s' x = heap s x) \<and>
     (case mapSelections sels v r of
        Inl e \<Rightarrow> ress = Inl e
      | Inr mapped \<Rightarrow>
          (\<exists>kept. ress = Inr kept
             \<and> set (elementRefs (filterIdentity kept)) \<subseteq> set (elementRefs refs)
             \<and> ownsSelections s' lo (filterIdentity kept) (filterIdentity mapped)))"
  "mapCallbackAt fuel s c v r = Some (reso, s') \<Longrightarrow>
     ownsSelection s lo c t \<Longrightarrow>
     (\<forall>x. x < lo \<or> c < x \<longrightarrow> heap s' x = heap s x) \<and>
     (case mapCallback t v r of
        Inl e \<Rightarrow> reso = Inl e
      | Inr None \<Rightarrow> reso = Inr None
      | Inr (Some t') \<Rightarrow>
          (reso = Inr (Some (Pointer c)) \<and> ownsSelection s' lo c t')
          \<or> (\<exists>str. t' = PrimitiveString str \<and> reso = Inr (Some (Primitive str))))"
proof (induction fuel s a v r and fuel s refs v r and fuel s c v r
       arbitrary: res s' lo ss and ress s' lo hi sels and reso s' lo t
       rule: applyDirectivesToSelectionSetAt_mapSelectionsAt_mapCallbackAt.induct)
  case (1 s selSet v r)
  then show ?case by simp
next
  case (2 fuel s a v r)
  obtain sels where ss: "ss = SelectionSet sels" by (cases ss)
  from "2.prems"(2) obtain refs where
    h: "heap s a = Some (SelectionSetObject refs)" and lo: "lo \<le> a"
    and below: "\<forall>c \<in> set (elementRefs refs). c < a" and own: "ownsSelections s lo refs sels"
    unfolding ss by auto
  from "2.prems"(1) h obtain ress s1 where
    m: "mapSelectionsAt fuel s refs v r = Some (ress, s1)"
    by (cases "mapSelectionsAt fuel s refs v r") auto
  note ih = "2.IH"[OF h refl m own below]
  then have fr1: "\<forall>x. x < lo \<or> a \<le> x \<longrightarrow> heap s1 x = heap s x" by simp
  show ?case
  proof (cases "mapSelections sels v r")
    case (Inl e)
    then have "ress = Inl e" using ih by simp
    then have "res = Inl e" "s' = s1" using "2.prems"(1) h m by auto
    then show ?thesis using Inl fr1 ss by auto
  next
    case (Inr mapped)
    then obtain kept where k: "ress = Inr kept"
      "set (elementRefs (filterIdentity kept)) \<subseteq> set (elementRefs refs)"
      "ownsSelections s1 lo (filterIdentity kept) (filterIdentity mapped)"
      using ih by auto
    have r: "res = Inr a" "s' = writeObject a (SelectionSetObject (filterIdentity kept)) s1"
      using "2.prems"(1) h m k(1) by auto
    have kb: "\<forall>c \<in> set (elementRefs (filterIdentity kept)). c < a" using k(2) below by auto
    have "ownsSelections s' lo (filterIdentity kept) (filterIdentity mapped)"
    proof (rule owns_frame(3)[of lo a _ s1])
      show "\<forall>x. lo \<le> x \<and> x < a \<longrightarrow> heap s' x = heap s1 x"
        unfolding r(2) by (simp add: writeObject_def)
    qed (use kb k(3) in auto)
    then have "ownsSelectionSet s' lo a (SelectionSet (filterIdentity mapped))"
      using lo kb unfolding r(2) by (auto simp: writeObject_def)
    moreover have "\<forall>x. x < lo \<or> a < x \<longrightarrow> heap s' x = heap s x"
      using fr1 lo unfolding r(2) by (auto simp: writeObject_def)
    ultimately show ?thesis using Inr r(1) ss by simp
  qed
next
  case (3 fuel s v r)
  then show ?case by (cases sels) auto
next
  case (4 fuel s str rest v r)
  from "4.prems"(2) obtain ts where "sels = PrimitiveString str # ts"
    by (cases sels) auto
  then show ?case using "4.prems"(1) by simp
next
  case (5 fuel s c cs v r)
  from "5.prems"(2) obtain t ts where sels: "sels = t # ts"
    and ownc: "ownsSelection s lo c t" and ownr: "ownsSelections s (Suc c) cs ts"
    by (cases sels) auto
  have chi: "c < hi" and cshi: "\<forall>x \<in> set (elementRefs cs). x < hi" using "5.prems"(3) by auto
  have loc: "lo \<le> c" using owns_lower(1)[OF ownc] .
  from "5.prems"(1) obtain reso s1 where
    one: "mapCallbackAt fuel s c v r = Some (reso, s1)"
    by (cases "mapCallbackAt fuel s c v r") auto
  note ih1 = "5.IH"(1)[OF one ownc]
  then have fr1: "\<forall>x. x < lo \<or> c < x \<longrightarrow> heap s1 x = heap s x" by simp
  show ?case
  proof (cases "mapCallback t v r")
    case (Inl e)
    then have "reso = Inl e" using ih1 by simp
    then have "ress = Inl e" "s' = s1" using "5.prems"(1) one by auto
    then show ?thesis using Inl fr1 chi sels by auto
  next
    case (Inr pr)
    obtain hr where hr: "reso = Inr hr"
      "pr = None \<longrightarrow> hr = None"
      "\<forall>t'. pr = Some t' \<longrightarrow>
         (hr = Some (Pointer c) \<and> ownsSelection s1 lo c t')
         \<or> (\<exists>str. t' = PrimitiveString str \<and> hr = Some (Primitive str))"
      using ih1 Inr by (cases pr) auto
    from "5.prems"(1) one hr(1) obtain ress2 s2 where
      two: "mapSelectionsAt fuel s1 cs v r = Some (ress2, s2)"
      by (cases "mapSelectionsAt fuel s1 cs v r") auto
    have ownr1: "ownsSelections s1 (Suc c) cs ts"
    proof (rule owns_frame(3)[of "Suc c" hi _ s])
      show "\<forall>x. Suc c \<le> x \<and> x < hi \<longrightarrow> heap s1 x = heap s x" using fr1 by auto
    qed (use cshi ownr in auto)
    note ih2 = "5.IH"(2)[OF one refl hr(1) two ownr1 cshi]
    then have fr2: "\<forall>x. x < Suc c \<or> hi \<le> x \<longrightarrow> heap s2 x = heap s1 x" by simp
    have fr: "\<forall>x. x < lo \<or> hi \<le> x \<longrightarrow> heap s2 x = heap s x"
      using fr1 fr2 loc chi by auto
    show ?thesis
    proof (cases "mapSelections ts v r")
      case (Inl e)
      then have "ress2 = Inl e" using ih2 by simp
      then have "ress = Inl e" "s' = s2" using "5.prems"(1) one hr(1) two by auto
      then show ?thesis using Inr Inl fr sels by auto
    next
      case rest: (Inr rs)
      then obtain kept2 where k2: "ress2 = Inr kept2"
        "set (elementRefs (filterIdentity kept2)) \<subseteq> set (elementRefs cs)"
        "ownsSelections s2 (Suc c) (filterIdentity kept2) (filterIdentity rs)"
        using ih2 by auto
      have r: "ress = Inr (hr # kept2)" "s' = s2"
        using "5.prems"(1) one hr(1) two k2(1) by auto
      have lower: "ownsSelections s2 lo (filterIdentity kept2) (filterIdentity rs)"
        using owns_mono(3)[OF _ k2(3), of lo] loc by simp
      have "set (elementRefs (filterIdentity (hr # kept2))) \<subseteq> set (elementRefs (Pointer c # cs))
            \<and> ownsSelections s2 lo (filterIdentity (hr # kept2)) (filterIdentity (pr # rs))"
      proof (cases pr)
        case None
        then have "hr = None" using hr(2) by simp
        then show ?thesis using None k2(2) lower by auto
      next
        case (Some t')
        from hr(3) Some consider
          (node) "hr = Some (Pointer c)" "ownsSelection s1 lo c t'"
          | (string) str where "t' = PrimitiveString str" "hr = Some (Primitive str)"
          by blast
        then show ?thesis
        proof cases
          case node
          have "ownsSelection s2 lo c t'"
          proof (rule owns_frame(1)[of lo c _ s1])
            show "\<forall>x. lo \<le> x \<and> x \<le> c \<longrightarrow> heap s2 x = heap s1 x" using fr2 by auto
          qed (rule node(2))
          then show ?thesis using Some node(1) k2(2,3) by auto
        next
          case string
          then show ?thesis using Some k2(2) lower by auto
        qed
      qed
      then show ?thesis using Inr rest r fr sels by auto
    qed
  qed
next
  case (6 fuel s c v r)
  note prem = "6.prems"(1)[unfolded mapCallbackAt.simps[of fuel s c v r]]
  from owns_object[OF "6.prems"(2)] obtain obj where
    h: "heap s c = Some obj" and od: "objectDirectives obj = Some (directives t)"
    and nest: "case selectionSetOf t of
                 None \<Rightarrow> nestedSelectionSet obj = None
               | Some ss \<Rightarrow> (\<exists>b. nestedSelectionSet obj = Some b \<and> b < c
                              \<and> ownsSelectionSet s lo b ss)"
    by blast
  have node: "t \<noteq> PrimitiveString str" for str
    using "6.prems"(2) by (rule owns_node)
  note pure = applyDirectivesToSelection_at[OF node, of v r c]
  show ?case
  proof (cases "runDirectives c (directives t) v r")
    case (Inl e)
    then have "reso = Inl e" "s' = s" using prem h od by auto
    moreover have "mapCallback t v r = Inl e" using pure Inl by (simp add: mapCallback_eq)
    ultimately show ?thesis by simp
  next
    case (Inr st)
    note so = runDirectives_sameObject[OF Inr, unfolded sameObject_def]
    have pst: "applyDirectivesToSelection t v r = Inr (mapLocals (\<lambda>c. t) st)"
      using pure Inr by simp
    show ?thesis
    proof (cases "newSelection st = Undefined")
      case True
      show ?thesis
      proof (cases "toBeRemoved st = Some True")
        case tbr: True
        then have "reso = Inr None" "s' = s" using prem h od Inr True by auto
        moreover have "mapCallback t v r = Inr None"
          using pst True tbr by (simp add: mapCallback_eq mapLocals_def)
        ultimately show ?thesis by simp
      next
        case False
        then have "reso = Inr (Some (Pointer c))" "s' = s" using prem h od Inr True so by auto
        moreover have "mapCallback t v r = Inr (Some t)"
          using pst True False by (simp add: mapCallback_eq mapLocals_def)
        ultimately show ?thesis using "6.prems"(2) by simp
      qed
    next
      case False
      show ?thesis
      proof (cases "selectionSetOf t")
        case None
        then have "nestedSelectionSet obj = None" using nest by simp
        then have r: "reso = Inr (elementOf (newSelection st))" "s' = s"
          using prem h od Inr False by auto
        show ?thesis
        proof (cases "newSelection st")
          case Undefined
          then show ?thesis using False by simp
        next
          case (Selection newSel)
          then have "newSel = c" using so by simp
          moreover have "mapCallback t v r = Inr (Some t)"
            using pst Selection None by (simp add: mapCallback_eq mapLocals_def)
          ultimately show ?thesis using r Selection "6.prems"(2) by simp
        next
          case (ReturnedString str)
          then have "mapCallback t v r = Inr (stringElement str)"
            using pst None by (simp add: mapCallback_eq mapLocals_def)
          then show ?thesis using r ReturnedString by (simp add: stringElement_def)
        qed
      next
        case sso: (Some ss)
        then obtain b where nb: "nestedSelectionSet obj = Some b" and bc: "b < c"
          and ownb: "ownsSelectionSet s lo b ss"
          using nest by auto
        from prem h od Inr False nb obtain res1 s1 where
          ap: "applyDirectivesToSelectionSetAt fuel s b v r = Some (res1, s1)"
          by (cases "applyDirectivesToSelectionSetAt fuel s b v r") auto
        note ih = "6.IH"[OF h od Inr False nb ap ownb]
        then have fr1: "\<forall>x. x < lo \<or> b < x \<longrightarrow> heap s1 x = heap s x" by simp
        show ?thesis
        proof (cases "applyDirectivesToSelectionSet ss v r")
          case (Inl e)
          then have "res1 = Inl e" using ih by simp
          then have "reso = Inl e" "s' = s1" using prem h od Inr False nb ap by auto
          moreover have "mapCallback t v r = Inl e"
            using pst False sso Inl
            by (cases "newSelection st") (simp_all add: mapCallback_eq mapLocals_def)
          ultimately show ?thesis using fr1 bc by auto
        next
          case rw: (Inr ss')
          then have r1: "res1 = Inr b" and own1: "ownsSelectionSet s1 lo b ss'"
            using ih by auto
          have r: "reso = Inr (elementOf (newSelection st))" "s' = setSelectionSetAt c b s1"
            using prem h od Inr False nb ap r1 by auto
          have same: "heap s1 c = heap s c" using fr1 bc by simp
          have own': "ownsSelection s' lo c (setSelectionSet t ss')"
            unfolding r(2)
            by (rule owns_setSelectionSetAt[OF "6.prems"(2) sso same h nb own1 bc])
          have frame: "\<forall>x. x < lo \<or> c < x \<longrightarrow> heap s' x = heap s x"
            using fr1 bc owns_lower(1)[OF "6.prems"(2)]
            unfolding r(2) by (auto simp: heap_setSelectionSetAt_other)
          show ?thesis
          proof (cases "newSelection st")
            case Undefined
            then show ?thesis using False by simp
          next
            case (Selection newSel)
            then have "newSel = c" using so by simp
            moreover have "mapCallback t v r = Inr (Some (setSelectionSet t ss'))"
              using pst Selection sso rw by (simp add: mapCallback_eq mapLocals_def)
            ultimately show ?thesis using r(1) Selection own' frame by simp
          next
            case (ReturnedString str)
            then have "mapCallback t v r = Inr (stringElement str)"
              using pst sso rw by (simp add: mapCallback_eq mapLocals_def)
            then show ?thesis using r(1) ReturnedString frame by (simp add: stringElement_def)
          qed
        qed
      qed
    qed
  qed
qed

lemma exampleStore_owned:
  "ownsSelectionSet exampleStore 0 4
     (SelectionSet
        [Field ''author'' [conditional ''skip'' (Variable ''omit'')]
           (Some (SelectionSet [Field ''firstName'' [] None])),
         Field ''name'' [] None])"
  by (simp add: exampleStore_def)

text \<open>
  On the store too, \<^verbatim>\<open>@toString\<close> leaves a string in the array, and a second pass
  raises on it.
\<close>

lemma string_element_in_store:
  "applyDirectivesToSelectionSetAt 2
     \<lparr>heap = [0 \<mapsto> FieldObject ''author'' [Directive (Some ''toString'') []] None,
              1 \<mapsto> SelectionSetObject [Pointer 0]],
      nextRef = 2\<rparr>
     1 Map.empty skipAndInclude
   = Some (Inr 1,
       \<lparr>heap = [0 \<mapsto> FieldObject ''author'' [Directive (Some ''toString'') []] None,
                1 \<mapsto> SelectionSetObject [Primitive ''[object Undefined]'']],
        nextRef = 2\<rparr>)
   \<and> applyDirectivesToSelectionSetAt 2
     \<lparr>heap = [0 \<mapsto> FieldObject ''author'' [Directive (Some ''toString'') []] None,
              1 \<mapsto> SelectionSetObject [Primitive ''[object Undefined]'']],
      nextRef = 2\<rparr>
     1 Map.empty skipAndInclude
   = Some (Inl TypeError,
       \<lparr>heap = [0 \<mapsto> FieldObject ''author'' [Directive (Some ''toString'') []] None,
                1 \<mapsto> SelectionSetObject [Primitive ''[object Undefined]'']],
        nextRef = 2\<rparr>)"
  by (simp add: eval_nat_numeral mapCallbackAt.simps rewrite_eval writeObject_def)

section \<open>The polling scheduler (claims C4 and C9)\<close>

lemma inv_fetchQuery:
  assumes "schedulerInvariant s" "q \<notin> set (outstanding s)" "q < nextQueryId s"
  shows "schedulerInvariant (fetchQuery q d s)"
  using assms by (auto simp: schedulerInvariant_def fetchQuery_def)

lemma inv_register:
  assumes "schedulerInvariant s"
  shows "schedulerInvariant
        (s\<lparr>pollingTimers := (pollingTimers s)(nextQueryId s \<mapsto> d), nextQueryId := Suc (nextQueryId s)\<rparr>)"
  unfolding schedulerInvariant_def
proof (intro conjI ballI impI)
  show "distinct (outstanding (s\<lparr>pollingTimers := (pollingTimers s)(nextQueryId s \<mapsto> d), nextQueryId := Suc (nextQueryId s)\<rparr>))"
    using assms by (simp add: schedulerInvariant_def)
next
  fix q
  assume "q \<in> set (outstanding (s\<lparr>pollingTimers := (pollingTimers s)(nextQueryId s \<mapsto> d), nextQueryId := Suc (nextQueryId s)\<rparr>))"
  then have "q < nextQueryId s" using assms by (simp add: schedulerInvariant_def)
  then show "q < nextQueryId (s\<lparr>pollingTimers := (pollingTimers s)(nextQueryId s \<mapsto> d), nextQueryId := Suc (nextQueryId s)\<rparr>)"
    by simp
next
  fix q
  assume "q \<in> dom (pollingTimers (s\<lparr>pollingTimers := (pollingTimers s)(nextQueryId s \<mapsto> d), nextQueryId := Suc (nextQueryId s)\<rparr>))"
  then have "q = nextQueryId s \<or> q \<in> dom (pollingTimers s)" by auto
  moreover have "q < nextQueryId s" if "q \<in> dom (pollingTimers s)"
    using assms that unfolding schedulerInvariant_def by blast
  ultimately have "q \<le> nextQueryId s" using less_imp_le by blast
  then show "q < nextQueryId (s\<lparr>pollingTimers := (pollingTimers s)(nextQueryId s \<mapsto> d), nextQueryId := Suc (nextQueryId s)\<rparr>)"
    by simp
next
  fix q
  assume a: "q \<in> set (outstanding (s\<lparr>pollingTimers := (pollingTimers s)(nextQueryId s \<mapsto> d), nextQueryId := Suc (nextQueryId s)\<rparr>))"
    and b: "q \<in> dom (pollingTimers (s\<lparr>pollingTimers := (pollingTimers s)(nextQueryId s \<mapsto> d), nextQueryId := Suc (nextQueryId s)\<rparr>))"
  from a have o: "q \<in> set (outstanding s)" by simp
  then have "q < nextQueryId s" using assms by (simp add: schedulerInvariant_def)
  with b have "q \<in> dom (pollingTimers s)" by auto
  with o have "q \<in> dom (inFlightQueries s)" using assms by (simp add: schedulerInvariant_def)
  then show "q \<in> dom (inFlightQueries (s\<lparr>pollingTimers := (pollingTimers s)(nextQueryId s \<mapsto> d), nextQueryId := Suc (nextQueryId s)\<rparr>))"
    by simp
qed

lemma inv_stop:
  assumes "schedulerInvariant s"
  shows "schedulerInvariant (stopPollingQuery q s)"
proof -
  have "dom ((pollingTimers s)(q := None)) \<subseteq> dom (pollingTimers s)" by auto
  moreover have "x \<in> dom ((inFlightQueries s)(q := None))"
    if "x \<in> dom (inFlightQueries s)" "x \<in> dom ((pollingTimers s)(q := None))" for x
    using that by (cases "x = q") auto
  ultimately show ?thesis
    using assms unfolding schedulerInvariant_def stopPollingQuery_def
    by (simp add: subset_iff)
qed

lemma inv_complete:
  assumes "schedulerInvariant s"
  shows "schedulerInvariant (complete q s)"
proof (cases "q \<in> set (outstanding s)")
  case False
  then show ?thesis using assms by (simp add: complete_def)
next
  case True
  have d: "distinct (outstanding s)" using assms by (simp add: schedulerInvariant_def)
  have sub: "set (remove1 q (outstanding s)) = set (outstanding s) - {q}"
    using d by simp
  have "x \<in> dom ((inFlightQueries s)(q := None))"
    if "x \<in> set (outstanding s) - {q}" "x \<in> dom (pollingTimers s)" for x
  proof -
    from that have "x \<in> dom (inFlightQueries s)"
      using assms unfolding schedulerInvariant_def by blast
    with that show ?thesis by auto
  qed
  then show ?thesis
    using assms True d sub unfolding schedulerInvariant_def complete_def
    by simp
qed

lemma inv_tick:
  assumes inv: "schedulerInvariant s"
  shows "schedulerInvariant (tick q s)"
proof (cases "pollingTimers s q")
  case None
  then show ?thesis using inv by (simp add: tick_def)
next
  case (Some d)
  show ?thesis
  proof (cases "q \<in> dom (inFlightQueries s)")
    case True
    then show ?thesis using inv Some by (simp add: tick_def)
  next
    case False
    have qd: "q \<in> dom (pollingTimers s)" using Some by auto
    then have "q < nextQueryId s"
      using inv unfolding schedulerInvariant_def by blast
    moreover have "q \<notin> set (outstanding s)"
      using inv qd False unfolding schedulerInvariant_def by blast
    ultimately show ?thesis using inv Some False
      by (simp add: tick_def inv_fetchQuery)
  qed
qed

lemma inv_start:
  assumes inv: "schedulerInvariant s" and "startPollingQuery d s = Inr (q, s')"
  shows "schedulerInvariant s'"
proof -
  from assms(2) have s': "s' = fetchQuery (nextQueryId s) d
        (s\<lparr>pollingTimers := (pollingTimers s)(nextQueryId s \<mapsto> d), nextQueryId := Suc (nextQueryId s)\<rparr>)"
    by (cases "pollIntervalMillis d") (auto simp: startPollingQuery_def Let_def split: if_splits)
  have "nextQueryId s \<notin> set (outstanding s)"
    using inv unfolding schedulerInvariant_def by fastforce
  then show ?thesis
    unfolding s' using inv_register[OF inv, of d]
    by (intro inv_fetchQuery) simp_all
qed

lemma inv_step: "schedulerInvariant s \<Longrightarrow> schedulerInvariant (step s e)"
proof (cases e)
  case (StartPollingQuery d)
  assume inv: "schedulerInvariant s"
  show ?thesis
  proof (cases "startPollingQuery d s")
    case (Inl err)
    then show ?thesis using inv StartPollingQuery by simp
  next
    case (Inr r)
    then show ?thesis using inv StartPollingQuery inv_start[of s d "fst r" "snd r"]
      by (cases r) simp
  qed
qed (simp_all add: inv_stop inv_tick inv_complete)

lemma inv_foldl: "schedulerInvariant s \<Longrightarrow> schedulerInvariant (foldl step s es)"
  by (induction es arbitrary: s) (simp_all add: inv_step)

lemma inv_run: "schedulerInvariant (run es)"
  unfolding run_def by (rule inv_foldl) (simp add: schedulerInvariant_def newScheduler_def)

lemma distinct_count_le_1: "distinct xs \<Longrightarrow> count_list xs x \<le> 1"
  by (induction xs) auto

text \<open>
  Claim C4. After any sequence of registrations, stops, ticks and completions, no
  QueryId has more than one outstanding execution; and a tick for a QueryId that is in
  the InFlightSet leaves the scheduler as it is: no execution is started, none is
  queued, and nothing is raised (\<open>tick\<close> has no error result).
\<close>

theorem at_most_one_execution_in_flight:
  "count_list (outstanding (run events)) queryId \<le> 1
   \<and> (queryId \<in> dom (inFlightQueries s) \<longrightarrow>
        tick queryId s = s \<and> outstanding (step s (Tick queryId)) = outstanding s)"
proof -
  have "distinct (outstanding (run events))"
    using inv_run[of events] by (simp add: schedulerInvariant_def)
  then have "count_list (outstanding (run events)) queryId \<le> 1"
    by (rule distinct_count_le_1)
  moreover have "tick queryId s = s" if "queryId \<in> dom (inFlightQueries s)"
    using that by (simp add: tick_def split: option.splits)
  ultimately show ?thesis by simp
qed

text \<open>
  Claim C9. \<^verbatim>\<open>startPollingQuery\<close> and \<^verbatim>\<open>registerPollingQuery\<close> raise exactly when the
  descriptor has no poll interval or a non-positive one; the error is the
  PollingConfigurationError, raised by the registration itself, which leaves the
  scheduler unchanged. A descriptor with a positive interval is registered.
\<close>

theorem polling_interval_checked_at_registration:
  "(isError (startPollingQuery descriptor s) \<longleftrightarrow>
      (case pollIntervalMillis descriptor of None \<Rightarrow> True | Some interval \<Rightarrow> interval \<le> 0))
   \<and> (isError (registerPollingQuery descriptor s) \<longleftrightarrow>
      (case pollIntervalMillis descriptor of None \<Rightarrow> True | Some interval \<Rightarrow> interval \<le> 0))
   \<and> (isError (startPollingQuery descriptor s) \<longrightarrow>
        startPollingQuery descriptor s = Inl PollingConfigurationError
        \<and> step s (StartPollingQuery descriptor) = s)"
  by (cases "pollIntervalMillis descriptor")
     (simp_all add: startPollingQuery_def registerPollingQuery_def Let_def)


theorem at_most_one_execution_in_flight_witness:
  "count_list
     (outstanding (run
        [StartPollingQuery
           \<lparr>descriptorQuery = Document [], descriptorVariables = Map.empty,
            pollIntervalMillis = Some 10\<rparr>,
         Tick 0, Tick 0]))
     0 = 1
   \<and> tick 0 (run
        [StartPollingQuery
           \<lparr>descriptorQuery = Document [], descriptorVariables = Map.empty,
            pollIntervalMillis = Some 10\<rparr>])
     = run
        [StartPollingQuery
           \<lparr>descriptorQuery = Document [], descriptorVariables = Map.empty,
            pollIntervalMillis = Some 10\<rparr>]"
  using at_most_one_execution_in_flight[of
      "[StartPollingQuery
           \<lparr>descriptorQuery = Document [], descriptorVariables = Map.empty,
            pollIntervalMillis = Some 10\<rparr>,
         Tick 0, Tick 0]"
      0
      "run [StartPollingQuery
           \<lparr>descriptorQuery = Document [], descriptorVariables = Map.empty,
            pollIntervalMillis = Some 10\<rparr>]"]
  by (simp add: run_def newScheduler_def startPollingQuery_def fetchQuery_def tick_def Let_def)

theorem polling_interval_checked_at_registration_witness:
  "isError (startPollingQuery
      \<lparr>descriptorQuery = Document [], descriptorVariables = Map.empty,
       pollIntervalMillis = None\<rparr> newScheduler)
   \<and> isError (registerPollingQuery
      \<lparr>descriptorQuery = Document [], descriptorVariables = Map.empty,
       pollIntervalMillis = Some 0\<rparr> newScheduler)
   \<and> \<not> isError (startPollingQuery
      \<lparr>descriptorQuery = Document [], descriptorVariables = Map.empty,
       pollIntervalMillis = Some 80\<rparr> newScheduler)"
proof -
  note start = polling_interval_checked_at_registration[THEN conjunct1]
  note register = polling_interval_checked_at_registration[THEN conjunct2, THEN conjunct1]
  have "isError (startPollingQuery
      \<lparr>descriptorQuery = Document [], descriptorVariables = Map.empty,
       pollIntervalMillis = None\<rparr> newScheduler)"
    unfolding start by simp
  moreover have "isError (registerPollingQuery
      \<lparr>descriptorQuery = Document [], descriptorVariables = Map.empty,
       pollIntervalMillis = Some 0\<rparr> newScheduler)"
    unfolding register by simp
  moreover have "\<not> isError (startPollingQuery
      \<lparr>descriptorQuery = Document [], descriptorVariables = Map.empty,
       pollIntervalMillis = Some 80\<rparr> newScheduler)"
    unfolding start by simp
  ultimately show ?thesis by blast
qed

end
